theory Spec2Isabelle
  imports Main
begin

section \<open>Bulk loading a dataframe into a table: \<open>src/batch/batch_insert.py\<close>\<close>

text \<open>
  The class \<open>BatchInsert\<close> splits a dataframe into row ranges, starts one coroutine
  \<open>bulk_load\<close> per range, runs them under one \<open>asyncio.Semaphore\<close> and awaits them
  with \<open>asyncio.gather\<close>. The embedding has three layers:
  \<^item> the data: dataframes, column selection, row slices and their CSV text;
  \<^item> the synchronous code: the \<open>retry\<close> decorator, the partitioner, and \<open>execute\<close> up
    to its \<open>await\<close>;
  \<^item> the event loop: a step function on a state that holds the dispatcher's fields, the
    semaphore, the leases and one program counter per transfer task. An event is one
    resumption of a task (or of \<open>execute\<close> itself); the answers of the connection pool
    and of the database arrive as events.
\<close>

subsection \<open>Errors\<close>

text \<open>
  The source defines no exception class of its own; the kinds below are the ones its
  collaborators raise. \<open>KeyError\<close>, \<open>ValueError\<close> and \<open>TypeError\<close> are Python's,
  \<open>CancelledError\<close> is asyncio's, and the others are the names the specification gives
  to the failures of the pool and of the copy channel.
\<close>

datatype error =
    InvalidArgument
  | KeyError
  | ValueError
  | TypeError
  | PoolTimeout
  | SerializationError
  | TransferProtocolError
  | PoolLifecycleError
  | CancelledError

subsection \<open>Dataframes\<close>

text \<open>
  A dataframe is a list of column labels and a list of rows, each row holding the text of
  its cells in column order. \<open>data_df.shape[0]\<close> is the number of rows.
\<close>

record dataframe =
  columns :: "string list"
  rows :: "string list list"

text \<open>
  \<open>data_df[col_names]\<close> with a list of labels: the columns carrying these labels, in the
  order of the list; a label that no column carries raises \<open>KeyError\<close>.
\<close>

definition positions :: "string \<Rightarrow> string list \<Rightarrow> nat list" where
  "positions name cols = filter (\<lambda>i. cols ! i = name) [0..<length cols]"

definition select_columns :: "dataframe \<Rightarrow> string list \<Rightarrow> error + dataframe" where
  "select_columns df names =
     (if list_all (\<lambda>n. n \<in> set (columns df)) names then
        (let idx = concat (map (\<lambda>n. positions n (columns df)) names)
         in Inr \<lparr>columns = map (\<lambda>i. columns df ! i) idx,
                 rows = map (\<lambda>r. map (\<lambda>i. r ! i) idx) (rows df)\<rparr>)
      else Inl KeyError)"

text \<open>
  \<open>self.data_df[range_[0]: range_[1]]\<close>: a slice of the rows by position. Both bounds
  are natural numbers here, and Python clips a slice to the rows that exist.
\<close>

definition slice_rows :: "dataframe \<Rightarrow> nat \<times> nat \<Rightarrow> dataframe" where
  "slice_rows df r = df\<lparr>rows := take (snd r - fst r) (drop (fst r) (rows df))\<rparr>"

text \<open>
  \<open>to_csv(io_buffer, header=False, index=False)\<close>: one line per row and nothing else,
  fields separated by a comma, lines ended by a line feed, a field quoted when it holds a
  comma, a double quote or a line feed (the \<open>csv\<close> module's minimal quoting: the
  delimiter, the quote character and the characters of the line terminator; a double
  quote is doubled), and a row made of one empty field written as two double quotes.
\<close>

fun str_join :: "string \<Rightarrow> string list \<Rightarrow> string" where
  "str_join sep [] = []"
| "str_join sep [x] = x"
| "str_join sep (x # y # ys) = x @ sep @ str_join sep (y # ys)"

definition csv_field :: "string \<Rightarrow> string" where
  "csv_field s =
     (if list_ex (\<lambda>c. c = CHR 0x2C \<or> c = CHR 0x22 \<or> c = CHR 0x0A) s
      then [CHR 0x22] @ concat (map (\<lambda>c. if c = CHR 0x22 then [c, c] else [c]) s) @ [CHR 0x22]
      else s)"

definition csv_line :: "string list \<Rightarrow> string" where
  "csv_line r =
     (if r = [Nil] then [CHR 0x22, CHR 0x22] else str_join [CHR 0x2C] (map csv_field r))
     @ [CHR 0x0A]"

definition to_csv :: "dataframe \<Rightarrow> string" where
  "to_csv df = concat (map csv_line (rows df))"

subsection \<open>The partitioner\<close>

text \<open>
  Modelled from the spec: \<open>get_ranges\<close> of \<open>src/utils/dataframe_utils.py\<close>, which is not
  among the sources. The specification (4.1) gives it a total row count and a batch
  size: it fails with \<open>InvalidArgument\<close> when the batch size is not positive, returns no
  range for zero rows, and otherwise returns the half-open ranges of length
  \<open>batch_size\<close> in order, the last one possibly shorter, that cover \<open>[0, total_rows)\<close>.
\<close>

definition chunk_ranges :: "nat \<Rightarrow> nat \<Rightarrow> (nat \<times> nat) list" where
  "chunk_ranges total_rows batch =
     map (\<lambda>k. (k * batch, min ((k + 1) * batch) total_rows))
       [0..<(total_rows + batch - 1) div batch]"

definition get_ranges :: "nat \<Rightarrow> int \<Rightarrow> error + (nat \<times> nat) list" where
  "get_ranges total_rows batch_size =
     (if batch_size \<le> 0 then Inl InvalidArgument
      else Inr (chunk_ranges total_rows (nat batch_size)))"

text \<open>The row positions of a half-open range.\<close>

definition range_rows :: "nat \<times> nat \<Rightarrow> nat list" where
  "range_rows r = [fst r..<snd r]"

subsection \<open>The retry decorator\<close>

text \<open>
  \<open>from retry import retry\<close> is the third-party package \<open>retry\<close>; its loop
  (\<open>retry/api.py\<close>, \<open>__retry_internal\<close>) is
  \<^verbatim>\<open>
  _tries, _delay = tries, delay
  while _tries:
      try:
          return f()
      except exceptions as e:
          _tries -= 1
          if not _tries:
              raise
          time.sleep(_delay)
          _delay *= backoff
  \<close>
  The function \<open>f\<close> acts on a world \<open>'w\<close>; the list of numbers is the log of the calls of
  \<open>time.sleep\<close>. With no try left the loop is not entered and Python returns \<open>None\<close>.
\<close>

fun retry_internal ::
  "('w \<Rightarrow> (error + 'a) \<times> 'w) \<Rightarrow> nat \<Rightarrow> nat \<Rightarrow> nat \<Rightarrow> nat list \<times> 'w
     \<Rightarrow> (error + 'a option) \<times> nat list \<times> 'w" where
  "retry_internal f 0 delay backoff (slept, w) = (Inr None, slept, w)"
| "retry_internal f (Suc tries) delay backoff (slept, w) =
     (case f w of
        (Inr v, w') \<Rightarrow> (Inr (Some v), slept, w')
      | (Inl e, w') \<Rightarrow>
          if tries = 0 then (Inl e, slept, w')
          else retry_internal f tries (delay * backoff) backoff (slept @ [delay], w'))"

text \<open>
  The decorator is synchronous and the three functions it decorates are \<open>async def\<close>.
  Calling an \<open>async def\<close> function runs none of its body: the call returns a coroutine
  object and cannot fail, whatever the body would do. The function \<open>f\<close> that the loop
  above calls is this call.
\<close>

definition async_call :: "'c \<Rightarrow> 'w \<Rightarrow> (error + 'c) \<times> 'w" where
  "async_call coroutine w = (Inr coroutine, w)"

text \<open>
  \<open>await x\<close> on what the decorated function returned: an exception of the call itself
  propagates, \<open>None\<close> cannot be awaited, and a coroutine runs its body, once.
\<close>

definition await_call ::
  "(error + ('w \<Rightarrow> (error + 'a) \<times> 'w) option) \<times> nat list \<times> 'w
     \<Rightarrow> (error + 'a) \<times> nat list \<times> 'w" where
  "await_call x =
     (case x of
        (Inl e, slept, w) \<Rightarrow> (Inl e, slept, w)
      | (Inr None, slept, w) \<Rightarrow> (Inl TypeError, slept, w)
      | (Inr (Some body), slept, w) \<Rightarrow> (case body w of (r, w') \<Rightarrow> (r, slept, w')))"

subsection \<open>The pool's lifecycle\<close>

text \<open>
  The connection pool is a collaborator. For \<open>open\<close> and \<open>close\<close> it is the list of the
  outcomes that its next lifecycle operations will have; an operation consumes one, and
  succeeds when none is left.
\<close>

type_synonym pool = "(error + unit) list"

definition pool_open :: "pool \<Rightarrow> (error + unit) \<times> pool" where
  "pool_open p = (case p of [] \<Rightarrow> (Inr (), []) | r # rs \<Rightarrow> (r, rs))"

definition pool_close :: "pool \<Rightarrow> (error + unit) \<times> pool" where
  "pool_close p = (case p of [] \<Rightarrow> (Inr (), []) | r # rs \<Rightarrow> (r, rs))"

text \<open>
  \<open>await batch.open_connection_pool()\<close> and \<open>await batch.close_connection_pool()\<close>, both
  decorated with \<open>@retry(Exception, tries=3, delay=2, backoff=1)\<close>.
\<close>

definition open_connection_pool :: "pool \<Rightarrow> (error + unit) \<times> nat list \<times> pool" where
  "open_connection_pool p = await_call (retry_internal (async_call pool_open) 3 2 1 ([], p))"

definition close_connection_pool :: "pool \<Rightarrow> (error + unit) \<times> nat list \<times> pool" where
  "close_connection_pool p = await_call (retry_internal (async_call pool_close) 3 2 1 ([], p))"

text \<open>
  The retry policy in the specification's words (4.2): the operation itself is invoked,
  and invoked again after the delay when it raised, up to the given number of attempts.
\<close>

definition retry_policy ::
  "('w \<Rightarrow> (error + 'a) \<times> 'w) \<Rightarrow> 'w \<Rightarrow> (error + 'a option) \<times> nat list \<times> 'w" where
  "retry_policy operation w = retry_internal operation 3 2 1 ([], w)"

subsection \<open>The dispatcher and its transfer tasks\<close>

record config =
  batch_size :: int
  table_name :: string
  schema :: string
  min_conn :: int
  max_conn :: int

text \<open>
  Where a transfer task stands in \<open>bulk_load\<close>: waiting at \<open>async with semaphore\<close>;
  inside that block and waiting at \<open>pool.connection(timeout=60)\<close>; inside the connection
  block, before the slice of line 91; after \<open>copy.write\<close>, with the blocks still to be
  left; returned; or ended by an exception.
\<close>

datatype status = Pending | HasPermit | HasLease | Wrote | Done | Failed error

text \<open>One call of \<open>copy.write\<close>: the \<open>COPY\<close> statement of the channel, the rows that were
  serialised and the text that was sent.\<close>

record copy_write =
  query :: string
  frame :: dataframe
  payload :: string

text \<open>A task is the coroutine of one call of \<open>bulk_load\<close>: its arguments, where it stands,
  and what it wrote to its copy channel.\<close>

record task =
  row_range :: "nat \<times> nat"
  dest :: string
  col_names :: string
  status :: status
  writes :: "copy_write list"

datatype phase = Idle | Dispatching | Completed | Raised error

text \<open>
  The tasks of an earlier call of \<open>execute\<close> with the semaphore that call made: they go
  on running when their call has raised, since \<open>gather\<close> cancels nothing.
\<close>

record group =
  g_sem_value :: nat
  g_permit_holders :: "nat list"
  g_lease_holders :: "nat list"
  g_tasks :: "task list"

text \<open>
  The state: the objects that exist (\<open>heap\<close>; a dataframe is referred to by its
  position there), the field \<open>self.data_df\<close>, the semaphore's counter, the tasks that
  hold a permit and those that hold a connection, the tasks of the call at hand, the
  exception that \<open>gather\<close> has recorded, where \<open>execute\<close> stands, and the tasks of
  the calls made before.
\<close>

record state =
  heap :: "dataframe list"
  data_df :: "nat option"
  sem_value :: nat
  permit_holders :: "nat list"
  lease_holders :: "nat list"
  tasks :: "task list"
  gather_exc :: "error option"
  phase :: phase
  earlier :: "group list"

text \<open>The tasks of the call at hand and their semaphore, as a group.\<close>

definition group_of :: "state \<Rightarrow> group" where
  "group_of st =
     \<lparr>g_sem_value = sem_value st, g_permit_holders = permit_holders st,
      g_lease_holders = lease_holders st, g_tasks = tasks st\<rparr>"

text \<open>\<open>__init__\<close> sets \<open>self.data_df = None\<close>; no call has been made.\<close>

definition BatchInsert_init :: "dataframe list \<Rightarrow> state" where
  "BatchInsert_init h =
     \<lparr>heap = h, data_df = None, sem_value = 0, permit_holders = [], lease_holders = [],
      tasks = [], gather_exc = None, phase = Idle, earlier = []\<rparr>"

subsubsection \<open>\<open>bulk_load\<close> and \<open>handle_csv_bulk_insert\<close>\<close>

definition copy_query :: "string \<Rightarrow> string \<Rightarrow> string" where
  "copy_query table cols =
     ''COPY '' @ table @ '' ('' @ cols @ '') FROM STDIN WITH (FORMAT CSV, DELIMITER ''
       @ [CHR 0x27, CHR 0x2C, CHR 0x27] @ '')''"

definition new_task :: "nat \<times> nat \<Rightarrow> string \<Rightarrow> string \<Rightarrow> task" where
  "new_task r table cols =
     \<lparr>row_range = r, dest = table, col_names = cols, status = Pending, writes = []\<rparr>"

text \<open>The decorated \<open>bulk_load\<close>, as \<open>handle_csv_bulk_insert\<close> calls it at line 77.\<close>

definition bulk_load ::
  "nat \<times> nat \<Rightarrow> string \<Rightarrow> string \<Rightarrow> (error + task option) \<times> nat list \<times> unit" where
  "bulk_load r table cols = retry_internal (async_call (new_task r table cols)) 3 2 1 ([], ())"

text \<open>The loop of lines 75 to 80, which collects what the calls return.\<close>

fun launch :: "string \<Rightarrow> string \<Rightarrow> (nat \<times> nat) list \<Rightarrow> error + task list" where
  "launch table cols [] = Inr []"
| "launch table cols (r # rs) =
     (case fst (bulk_load r table cols) of
        Inl e \<Rightarrow> Inl e
      | Inr None \<Rightarrow> Inl TypeError
      | Inr (Some t) \<Rightarrow>
          (case launch table cols rs of Inl e \<Rightarrow> Inl e | Inr ts \<Rightarrow> Inr (t # ts)))"

text \<open>
  \<open>handle_csv_bulk_insert\<close> up to its \<open>await\<close>: \<open>asyncio.Semaphore(self.min_conn)\<close> raises
  \<open>ValueError\<close> for a negative value; then the coroutines are created and handed to
  \<open>gather\<close>, and \<open>execute\<close> is suspended.
\<close>

definition handle_csv_bulk_insert ::
  "config \<Rightarrow> state \<Rightarrow> (nat \<times> nat) list \<Rightarrow> string \<Rightarrow> state" where
  "handle_csv_bulk_insert cfg st partition_ranges cols =
     (if min_conn cfg < 0 then st\<lparr>phase := Raised ValueError\<rparr>
      else
        (case launch (schema cfg @ ''.'' @ table_name cfg) cols partition_ranges of
           Inl e \<Rightarrow> st\<lparr>phase := Raised e\<rparr>
         | Inr ts \<Rightarrow>
             st\<lparr>sem_value := nat (min_conn cfg), permit_holders := [], lease_holders := [],
                tasks := ts, gather_exc := None, phase := Dispatching\<rparr>))"

subsubsection \<open>\<open>execute\<close>\<close>

text \<open>
  The \<open>try\<close> block of \<open>execute\<close> up to its first suspension, for the dataframe at
  \<open>ref\<close>. The result has phase \<open>Raised\<close> when an exception left the block,
  \<open>Completed\<close> after the \<open>return\<close> of line 56, and \<open>Dispatching\<close> when \<open>execute\<close> waits
  for \<open>gather\<close>. A selection makes a new dataframe; without one \<open>self.data_df\<close> refers
  to the caller's object.
\<close>

definition execute_try :: "config \<Rightarrow> state \<Rightarrow> nat \<Rightarrow> string list option \<Rightarrow> state" where
  "execute_try cfg st ref names =
     (let data = heap st ! ref in
      case get_ranges (length (rows data)) (batch_size cfg) of
        Inl e \<Rightarrow> st\<lparr>phase := Raised e\<rparr>
      | Inr partition_ranges \<Rightarrow>
          if partition_ranges = [] then st\<lparr>phase := Completed\<rparr>
          else
            (case names of
               Some (c # cs) \<Rightarrow>
                 (case select_columns data (c # cs) of
                    Inl e \<Rightarrow> st\<lparr>phase := Raised e\<rparr>
                  | Inr selected \<Rightarrow>
                      handle_csv_bulk_insert cfg
                        (st\<lparr>heap := heap st @ [selected], data_df := Some (length (heap st))\<rparr>)
                        partition_ranges (str_join [CHR 0x2C] (c # cs)))
             | _ \<Rightarrow>
                 handle_csv_bulk_insert cfg (st\<lparr>data_df := Some ref\<rparr>)
                   partition_ranges (str_join [CHR 0x2C] (columns data))))"

text \<open>
  A call \<open>execute(data_df, col_names)\<close> on the dispatcher \<open>d\<close>, up to its first
  suspension. The caller's dataframe is the newest object. The call makes its own
  tasks and its own semaphore; the tasks of the call before, if it launched any, stay
  in the state as an earlier group and go on running. The \<open>finally\<close> clause clears
  \<open>self.data_df\<close> on the paths that have left the \<open>try\<close> block. The decorator \<open>time_it\<close>
  (\<open>src/utils/time_it_decorator.py\<close>, not among the sources) is taken to pass the call
  through.
\<close>

definition execute :: "config \<Rightarrow> state \<Rightarrow> dataframe \<Rightarrow> string list option \<Rightarrow> state" where
  "execute cfg d data names =
     (let st = execute_try cfg
                 (d\<lparr>heap := heap d @ [data], sem_value := 0, permit_holders := [],
                    lease_holders := [], tasks := [], gather_exc := None, phase := Idle,
                    earlier := earlier d @ (if tasks d = [] then [] else [group_of d])\<rparr>)
                 (length (heap d)) names
      in if phase st = Dispatching then st else st\<lparr>data_df := None\<rparr>)"

subsubsection \<open>The event loop\<close>

text \<open>
  An event resumes one task, or \<open>execute\<close>:
  \<^item> \<open>Acquire i\<close>: task \<open>i\<close> gets a permit of the semaphore;
  \<^item> \<open>Lease i t\<close>: the pool has a connection for task \<open>i\<close> after \<open>t\<close> units of time, and
    \<open>pool.connection(timeout=60)\<close> raises \<open>PoolTimeout\<close> when that is too late;
  \<^item> \<open>Copy i\<close>: task \<open>i\<close> opens cursor and copy channel, slices \<open>self.data_df\<close>,
    serialises the slice and writes it;
  \<^item> \<open>Finish i\<close>: task \<open>i\<close> leaves its blocks and returns;
  \<^item> \<open>Raise i e\<close>: the operation task \<open>i\<close> is suspended in raises \<open>e\<close> (a failure of
    the pool or of the database, or a cancellation);
  \<^item> \<open>Resume\<close>: the future of \<open>gather\<close> is done and \<open>execute\<close> runs to its end.
\<close>

datatype event =
    Acquire nat
  | Lease nat nat
  | Copy nat
  | Finish nat
  | Raise nat error
  | Resume

definition connection_timeout :: nat where
  "connection_timeout = 60"

definition set_status :: "nat \<Rightarrow> status \<Rightarrow> state \<Rightarrow> state" where
  "set_status i s st = st\<lparr>tasks := (tasks st)[i := (tasks st ! i)\<lparr>status := s\<rparr>]\<rparr>"

text \<open>\<open>Semaphore.acquire\<close> and \<open>Semaphore.release\<close>, entering and leaving line 85.\<close>

definition sem_acquire :: "nat \<Rightarrow> state \<Rightarrow> state" where
  "sem_acquire i st =
     st\<lparr>sem_value := sem_value st - 1, permit_holders := i # permit_holders st\<rparr>"

definition sem_release :: "nat \<Rightarrow> state \<Rightarrow> state" where
  "sem_release i st =
     st\<lparr>sem_value := sem_value st + 1, permit_holders := remove1 i (permit_holders st)\<rparr>"

text \<open>Entering and leaving the block of \<open>pool.connection\<close>, line 87.\<close>

definition lease_acquire :: "nat \<Rightarrow> state \<Rightarrow> state" where
  "lease_acquire i st = st\<lparr>lease_holders := i # lease_holders st\<rparr>"

definition lease_release :: "nat \<Rightarrow> state \<Rightarrow> state" where
  "lease_release i st = st\<lparr>lease_holders := remove1 i (lease_holders st)\<rparr>"

text \<open>
  A task ends with an exception. The callback of \<open>gather\<close> passes the first exception
  of a task on to the future that \<open>execute\<close> awaits; it does not touch the other tasks.
\<close>

definition task_raise :: "nat \<Rightarrow> error \<Rightarrow> state \<Rightarrow> state" where
  "task_raise i e st =
     (set_status i (Failed e) st)
       \<lparr>gather_exc := (case gather_exc st of None \<Rightarrow> Some e | Some first \<Rightarrow> Some first)\<rparr>"

text \<open>Lines 91 to 94 for task \<open>i\<close>, on the dataframe that \<open>self.data_df\<close> refers to.\<close>

definition write_slice :: "nat \<Rightarrow> dataframe \<Rightarrow> state \<Rightarrow> state" where
  "write_slice i df st =
     (let t = tasks st ! i; part = slice_rows df (row_range t)
      in st\<lparr>tasks := (tasks st)[i := t\<lparr>writes := writes t @
           [\<lparr>query = copy_query (dest t) (col_names t), frame = part,
             payload = to_csv part\<rparr>]\<rparr>]\<rparr>)"

fun step :: "state \<Rightarrow> event \<Rightarrow> state option" where
  "step st (Acquire i) =
     (if i < length (tasks st) \<and> status (tasks st ! i) = Pending \<and> 0 < sem_value st
      then Some (set_status i HasPermit (sem_acquire i st))
      else None)"
| "step st (Lease i t) =
     (if i < length (tasks st) \<and> status (tasks st ! i) = HasPermit
      then (if t \<le> connection_timeout
            then Some (set_status i HasLease (lease_acquire i st))
            else Some (task_raise i PoolTimeout (sem_release i st)))
      else None)"
| "step st (Copy i) =
     (if i < length (tasks st) \<and> status (tasks st ! i) = HasLease
      then (case data_df st of
              None \<Rightarrow> Some (task_raise i TypeError (sem_release i (lease_release i st)))
            | Some r \<Rightarrow> Some (set_status i Wrote (write_slice i (heap st ! r) st)))
      else None)"
| "step st (Finish i) =
     (if i < length (tasks st) \<and> status (tasks st ! i) = Wrote
      then Some (set_status i Done (sem_release i (lease_release i st)))
      else None)"
| "step st (Raise i e) =
     (if i < length (tasks st)
      then (case status (tasks st ! i) of
              Pending \<Rightarrow> Some (task_raise i e st)
            | HasPermit \<Rightarrow> Some (task_raise i e (sem_release i st))
            | HasLease \<Rightarrow> Some (task_raise i e (sem_release i (lease_release i st)))
            | Wrote \<Rightarrow> Some (task_raise i e (sem_release i (lease_release i st)))
            | Done \<Rightarrow> None
            | Failed x \<Rightarrow> None)
      else None)"
| "step st Resume =
     (if phase st = Dispatching
      then (case gather_exc st of
              Some e \<Rightarrow> Some (st\<lparr>data_df := None, phase := Raised e\<rparr>)
            | None \<Rightarrow>
                if list_all (\<lambda>t. status t = Done) (tasks st)
                then Some (st\<lparr>data_df := None, phase := Completed\<rparr>)
                else None)
      else None)"

text \<open>
  What happens in the event loop is an event of the call at hand, or an event of a task
  of an earlier call. Such a task works with the semaphore of its own call, and reads
  \<open>self.data_df\<close> of the one dispatcher when it reaches line 91, whatever call has set
  it. Its \<open>gather\<close> is done and its \<open>execute\<close> has ended: an exception of the task is
  passed on to nobody.
\<close>

datatype occurrence = Own event | Leftover nat event

definition with_group :: "group \<Rightarrow> state \<Rightarrow> state" where
  "with_group g st =
     st\<lparr>sem_value := g_sem_value g, permit_holders := g_permit_holders g,
        lease_holders := g_lease_holders g, tasks := g_tasks g\<rparr>"

fun advance :: "state \<Rightarrow> occurrence \<Rightarrow> state option" where
  "advance st (Own ev) = step st ev"
| "advance st (Leftover k ev) =
     (if k < length (earlier st) \<and> ev \<noteq> Resume
      then (case step (with_group (earlier st ! k) st) ev of
              None \<Rightarrow> None
            | Some st' \<Rightarrow> Some (st\<lparr>earlier := (earlier st)[k := group_of st']\<rparr>))
      else None)"

fun run :: "state \<Rightarrow> occurrence list \<Rightarrow> state option" where
  "run st [] = Some st"
| "run st (oc # ocs) = (case advance st oc of None \<Rightarrow> None | Some st' \<Rightarrow> run st' ocs)"

text \<open>
  Calls of \<open>execute\<close> one after the other on the same dispatcher, each with what
  happens after it. The next call is made once the one before has returned or raised.
\<close>

fun session ::
  "config \<Rightarrow> state \<Rightarrow> (dataframe \<times> string list option \<times> occurrence list) list
     \<Rightarrow> state option" where
  "session cfg st [] = Some st"
| "session cfg st ((data, names, ocs) # calls) =
     (if phase st = Dispatching then None
      else (case run (execute cfg st data names) ocs of
              None \<Rightarrow> None
            | Some st' \<Rightarrow> session cfg st' calls))"

subsection \<open>Notions used in the properties\<close>

text \<open>Lines 58 and 59: the dataframe that the tasks of a call read, which is the selection when
  column names are given and the caller's dataframe when they are absent or empty.\<close>

definition selected_frame :: "dataframe \<Rightarrow> string list option \<Rightarrow> error + dataframe" where
  "selected_frame data names =
     (case names of Some (c # cs) \<Rightarrow> select_columns data (c # cs) | _ \<Rightarrow> Inr data)"

text \<open>Line 61: the column names handed to the tasks, joined by commas.\<close>

definition selected_names :: "dataframe \<Rightarrow> string list option \<Rightarrow> string" where
  "selected_names data names =
     str_join [CHR 0x2C] (case names of Some (c # cs) \<Rightarrow> c # cs | _ \<Rightarrow> columns data)"

text \<open>The table name of line 78.\<close>

definition destination :: "config \<Rightarrow> string" where
  "destination cfg = schema cfg @ ''.'' @ table_name cfg"

text \<open>A task stands inside the block of \<open>async with semaphore\<close>.\<close>

fun inside_sem :: "status \<Rightarrow> bool" where
  "inside_sem HasPermit = True"
| "inside_sem HasLease = True"
| "inside_sem Wrote = True"
| "inside_sem s = False"

text \<open>A task stands inside the block of \<open>pool.connection\<close>.\<close>

fun inside_lease :: "status \<Rightarrow> bool" where
  "inside_lease HasLease = True"
| "inside_lease Wrote = True"
| "inside_lease s = False"

text \<open>A task has returned or has ended with an exception.\<close>

fun ended :: "status \<Rightarrow> bool" where
  "ended Done = True"
| "ended (Failed e) = True"
| "ended s = False"

text \<open>The positions of the tasks whose status satisfies \<open>P\<close>.\<close>

definition at_status :: "(status \<Rightarrow> bool) \<Rightarrow> task list \<Rightarrow> nat set" where
  "at_status P ts = {i. i < length ts \<and> P (status (ts ! i))}"

text \<open>The permits and the connections are held by the tasks that stand inside the two blocks,
  and the semaphore counts the permits that are left of \<open>n\<close>.\<close>

definition holders_inv :: "nat \<Rightarrow> state \<Rightarrow> bool" where
  "holders_inv n st \<longleftrightarrow>
     distinct (permit_holders st) \<and>
     set (permit_holders st) = at_status inside_sem (tasks st) \<and>
     distinct (lease_holders st) \<and>
     set (lease_holders st) = at_status inside_lease (tasks st) \<and>
     sem_value st + length (permit_holders st) = n"

text \<open>The arguments of a task, which no event changes.\<close>

definition static :: "task \<Rightarrow> (nat \<times> nat) \<times> string \<times> string" where
  "static t = (row_range t, dest t, col_names t)"

text \<open>What lines 86 to 94 write for a task when \<open>self.data_df\<close> refers to \<open>df\<close>.\<close>

definition expected_write :: "dataframe \<Rightarrow> task \<Rightarrow> copy_write" where
  "expected_write df t =
     \<lparr>query = copy_query (dest t) (col_names t), frame = slice_rows df (row_range t),
      payload = to_csv (slice_rows df (row_range t))\<rparr>"

text \<open>A task has written nothing before line 94, and that one write after it.\<close>

definition task_ok :: "dataframe \<Rightarrow> task \<Rightarrow> bool" where
  "task_ok df t =
     (case status t of
        Pending \<Rightarrow> writes t = []
      | HasPermit \<Rightarrow> writes t = []
      | HasLease \<Rightarrow> writes t = []
      | Wrote \<Rightarrow> writes t = [expected_write df t]
      | Done \<Rightarrow> writes t = [expected_write df t]
      | Failed e \<Rightarrow> writes t = [] \<or> writes t = [expected_write df t])"

text \<open>While \<open>execute\<close> waits, \<open>self.data_df\<close> refers to the dataframe \<open>df\<close> at \<open>r\<close>; afterwards it is
  absent; and every task has written what it should.\<close>

definition writes_inv :: "nat \<Rightarrow> dataframe \<Rightarrow> state \<Rightarrow> bool" where
  "writes_inv r df st \<longleftrightarrow>
     data_df st = (if phase st = Dispatching then Some r else None) \<and>
     r < length (heap st) \<and> heap st ! r = df \<and>
     (\<forall>i < length (tasks st). task_ok df (tasks st ! i))"

text \<open>Where the tasks stand.\<close>

definition statuses :: "state \<Rightarrow> status list" where
  "statuses st = map status (tasks st)"

text \<open>What \<open>gather\<close> has recorded: nothing as long as no task has failed, otherwise the
  exception of a failed task; a completed call has only returned tasks, and a call that
  raised after launching tasks raised the recorded exception.\<close>

definition gather_inv :: "state \<Rightarrow> bool" where
  "gather_inv st \<longleftrightarrow>
     (gather_exc st = None \<longrightarrow> (\<forall>e. Failed e \<notin> set (statuses st))) \<and>
     (\<forall>e. gather_exc st = Some e \<longrightarrow> Failed e \<in> set (statuses st)) \<and>
     (phase st = Completed \<longrightarrow> (\<forall>s \<in> set (statuses st). s = Done)) \<and>
     (\<forall>e. phase st = Raised e \<longrightarrow> gather_exc st = Some e) \<and>
     phase st \<noteq> Idle"





text \<open>A dispatcher, a dataframe and a call, to run the statements on.\<close>

definition example_cfg :: config where
  "example_cfg =
     \<lparr>batch_size = 2, table_name = ''items'', schema = ''public'', min_conn = 2,
      max_conn = 4\<rparr>"

text \<open>Three rows, one with a comma in a field.\<close>

definition example_df :: dataframe where
  "example_df =
     \<lparr>columns = [''id'', ''name''],
      rows = [''1'', ''a''] # [''2'', ''b,c''] # [''3'', ''d''] # []\<rparr>"

text \<open>The first call on a new dispatcher, with no column names: two ranges, two tasks.\<close>

definition example_call :: state where
  "example_call = execute example_cfg (BatchInsert_init []) example_df None"

text \<open>Both tasks of the example hold a permit.\<close>

definition example_both_inside :: state where
  "example_both_inside = the (run example_call [Own (Acquire 0), Own (Acquire 1)])"


text \<open>Both tasks of the example have returned and \<open>execute\<close> has completed.\<close>

definition example_completed :: state where
  "example_completed =
     the (run example_call
       [Own (Acquire 0), Own (Acquire 1), Own (Lease 0 3), Own (Lease 1 60), Own (Copy 1), Own (Copy 0), Own (Finish 0), Own (Finish 1),
        Own Resume])"

text \<open>The first task of the example has met the timeout of the pool.\<close>

definition example_failed :: state where
  "example_failed = the (run example_call [Own (Acquire 0), Own (Acquire 1), Own (Lease 0 61)])"

text \<open>The dispatcher after a call that raised, and a state of the call that follows.\<close>

definition example_after_raise :: state where
  "example_after_raise =
     the (session example_cfg (BatchInsert_init [])
       [(example_df, None, [Own (Acquire 0), Own (Acquire 1), Own (Lease 0 61), Own Resume])])"

definition example_next_call :: state where
  "example_next_call =
     the (run (execute example_cfg example_after_raise example_df (Some [''name'']))
       [Own (Acquire 0)])"

text \<open>After the failure of the first task, the pool answers the second one in time.\<close>

definition example_leased :: state where
  "example_leased = the (step example_failed (Lease 1 5))"

text \<open>The call after the one that raised, with its first task failing in turn.\<close>

definition example_next_raised :: state where
  "example_next_raised =
     the (run (execute example_cfg example_after_raise example_df (Some [''name'']))
       [Own (Acquire 0), Own (Raise 0 TransferProtocolError), Own Resume])"




section \<open>Properties\<close>

subsection \<open>The partitioner\<close>

lemma concat_chunks:
  "0 < b \<Longrightarrow> concat (map (\<lambda>k. [k * b..<min ((k + 1) * b) n]) [0..<m]) = [0..<min (m * b) n]"
proof (induction m)
  case 0
  then show ?case by simp
next
  case (Suc m)
  show ?case
  proof (cases "m * b \<le> n")
    case True
    define k where "k = min ((m + 1) * b) n - m * b"
    have e: "min ((m + 1) * b) n = m * b + k"
      using True by (simp add: k_def min_def)
    have "[0..<m * b + k] = [0..<m * b] @ [m * b..<m * b + k]"
      by (rule upt_add_eq_append) simp
    with e True Suc show ?thesis by (simp add: min_absorb1)
  next
    case False
    then have "min (m * b) n = n" "min ((m + 1) * b) n = n" by (auto simp: min_def)
    with Suc False show ?thesis by simp
  qed
qed

lemma chunk_count: "0 < b \<Longrightarrow> n \<le> ((n + b - 1) div b) * (b::nat)"
proof -
  assume b: "0 < b"
  have "(n + b - 1) div b * b + (n + b - 1) mod b = n + b - 1" by simp
  moreover have "(n + b - 1) mod b < b" using b by simp
  ultimately show ?thesis by linarith
qed

lemma chunk_start: "0 < b \<Longrightarrow> k < (n + b - 1) div b \<Longrightarrow> k * b < (n::nat)"
proof -
  assume b: "0 < b" and k: "k < (n + b - 1) div b"
  from k have "Suc k \<le> (n + b - 1) div b" by simp
  then have "Suc k * b \<le> (n + b - 1) div b * b" by (rule mult_le_mono1)
  also have "\<dots> \<le> n + b - 1" by simp
  finally show ?thesis using b by simp
qed

lemma chunk_full: "0 < b \<Longrightarrow> Suc k < (n + b - 1) div b \<Longrightarrow> Suc k * b \<le> (n::nat)"
  by (rule less_imp_le [OF chunk_start])

lemma concat_chunk_ranges:
  "0 < b \<Longrightarrow> concat (map range_rows (chunk_ranges n b)) = [0..<n]"
  using concat_chunks [of b n "(n + b - 1) div b"] chunk_count [of b n]
  by (simp add: chunk_ranges_def range_rows_def comp_def min_absorb2)

lemma length_chunk_ranges: "length (chunk_ranges n b) = (n + b - 1) div b"
  by (simp add: chunk_ranges_def)

lemma nth_chunk_ranges:
  "k < length (chunk_ranges n b) \<Longrightarrow> chunk_ranges n b ! k = (k * b, min ((k + 1) * b) n)"
  by (simp add: chunk_ranges_def)

lemma chunk_ranges_shape:
  assumes b: "0 < b" and k: "k < length (chunk_ranges n b)"
  shows "fst (chunk_ranges n b ! k) = k * b"
    and "fst (chunk_ranges n b ! k) < snd (chunk_ranges n b ! k)"
    and "snd (chunk_ranges n b ! k) \<le> n"
    and "snd (chunk_ranges n b ! k) - fst (chunk_ranges n b ! k) \<le> b"
    and "Suc k < length (chunk_ranges n b) \<Longrightarrow>
           snd (chunk_ranges n b ! k) = fst (chunk_ranges n b ! Suc k)"
    and "Suc k < length (chunk_ranges n b) \<Longrightarrow>
           snd (chunk_ranges n b ! k) - fst (chunk_ranges n b ! k) = b"
proof -
  have s: "k * b < n" using chunk_start [OF b] k by (simp add: length_chunk_ranges)
  show "fst (chunk_ranges n b ! k) = k * b" using k by (simp add: nth_chunk_ranges)
  show "fst (chunk_ranges n b ! k) < snd (chunk_ranges n b ! k)"
    using k s b by (simp add: nth_chunk_ranges)
  show "snd (chunk_ranges n b ! k) \<le> n" using k by (simp add: nth_chunk_ranges)
  show "snd (chunk_ranges n b ! k) - fst (chunk_ranges n b ! k) \<le> b"
    using k by (simp add: nth_chunk_ranges)
  {
    assume k': "Suc k < length (chunk_ranges n b)"
    then have f: "Suc k * b \<le> n" using chunk_full [OF b] by (simp add: length_chunk_ranges)
    show "snd (chunk_ranges n b ! k) = fst (chunk_ranges n b ! Suc k)"
      using k k' f by (simp add: nth_chunk_ranges min_absorb1)
    show "snd (chunk_ranges n b ! k) - fst (chunk_ranges n b ! k) = b"
      using k k' f by (simp add: nth_chunk_ranges min_absorb1)
  }
qed

lemma chunk_ranges_ordered:
  assumes b: "0 < b" and ij: "i < j" and j: "j < length (chunk_ranges n b)"
  shows "snd (chunk_ranges n b ! i) \<le> fst (chunk_ranges n b ! j)"
proof -
  have "Suc i \<le> j" using ij by simp
  then have "Suc i * b \<le> j * b" by (rule mult_le_mono1)
  then show ?thesis using ij j by (simp add: nth_chunk_ranges)
qed

text \<open>
  C5. For a positive batch size the partitioner returns half-open ranges in order, each
  of length \<open>batch_size\<close> except possibly the last, which is not longer, none of them
  empty, the end of a range never after the start of a later one, and whose row
  positions put one after the other are exactly \<open>0, ..., total_rows - 1\<close>. For a batch
  size that is not positive it fails with \<open>InvalidArgument\<close>.
\<close>

theorem get_ranges_partition:
  "(bs \<le> 0 \<longrightarrow> get_ranges total_rows bs = Inl InvalidArgument) \<and>
   (0 < bs \<longrightarrow>
      (\<exists>rs. get_ranges total_rows bs = Inr rs \<and>
         concat (map range_rows rs) = [0..<total_rows] \<and>
         (\<forall>k < length rs.
            fst (rs ! k) = k * nat bs \<and>
            fst (rs ! k) < snd (rs ! k) \<and>
            snd (rs ! k) - fst (rs ! k) \<le> nat bs \<and>
            (Suc k < length rs \<longrightarrow> snd (rs ! k) - fst (rs ! k) = nat bs)) \<and>
         (\<forall>i j. i < j \<and> j < length rs \<longrightarrow> snd (rs ! i) \<le> fst (rs ! j))))"
proof (intro conjI impI)
  assume "bs \<le> 0"
  then show "get_ranges total_rows bs = Inl InvalidArgument"
    by (simp add: get_ranges_def)
next
  assume p: "0 < bs"
  then have b: "0 < nat bs" by simp
  let ?rs = "chunk_ranges total_rows (nat bs)"
  have "get_ranges total_rows bs = Inr ?rs" using p by (simp add: get_ranges_def)
  moreover have "concat (map range_rows ?rs) = [0..<total_rows]"
    by (rule concat_chunk_ranges [OF b])
  moreover have "\<forall>k < length ?rs.
            fst (?rs ! k) = k * nat bs \<and>
            fst (?rs ! k) < snd (?rs ! k) \<and>
            snd (?rs ! k) - fst (?rs ! k) \<le> nat bs \<and>
            (Suc k < length ?rs \<longrightarrow> snd (?rs ! k) - fst (?rs ! k) = nat bs)"
    using chunk_ranges_shape [OF b] by blast
  moreover have "\<forall>i j. i < j \<and> j < length ?rs \<longrightarrow> snd (?rs ! i) \<le> fst (?rs ! j)"
    using chunk_ranges_ordered [OF b] by blast
  ultimately show "\<exists>rs. get_ranges total_rows bs = Inr rs \<and>
         concat (map range_rows rs) = [0..<total_rows] \<and>
         (\<forall>k < length rs.
            fst (rs ! k) = k * nat bs \<and>
            fst (rs ! k) < snd (rs ! k) \<and>
            snd (rs ! k) - fst (rs ! k) \<le> nat bs \<and>
            (Suc k < length rs \<longrightarrow> snd (rs ! k) - fst (rs ! k) = nat bs)) \<and>
         (\<forall>i j. i < j \<and> j < length rs \<longrightarrow> snd (rs ! i) \<le> fst (rs ! j))"
    by blast
qed

theorem get_ranges_partition_witness:
  "(0::int) \<le> 0 \<and> get_ranges 250 0 = Inl InvalidArgument \<and> (0::int) < 100 \<and>
   (\<exists>rs. get_ranges 250 100 = Inr rs \<and> concat (map range_rows rs) = [0..<250] \<and>
      (\<forall>k < length rs.
         fst (rs ! k) = k * 100 \<and>
         fst (rs ! k) < snd (rs ! k) \<and>
         snd (rs ! k) - fst (rs ! k) \<le> 100 \<and>
         (Suc k < length rs \<longrightarrow> snd (rs ! k) - fst (rs ! k) = 100)) \<and>
      (\<forall>i j. i < j \<and> j < length rs \<longrightarrow> snd (rs ! i) \<le> fst (rs ! j)))"
  using get_ranges_partition [of 0 250] get_ranges_partition [of 100 250]
  by simp

subsection \<open>The retry decorator on coroutine functions\<close>

lemma retry_internal_async_call:
  "retry_internal (async_call c) (Suc n) delay backoff (slept, w) = (Inr (Some c), slept, w)"
  by (simp add: async_call_def)

lemma bulk_load_coroutine: "bulk_load r table cols = (Inr (Some (new_task r table cols)), [], ())"
  by (simp add: bulk_load_def numeral_3_eq_3 retry_internal_async_call del: retry_internal.simps)

lemma launch_tasks: "launch table cols rs = Inr (map (\<lambda>r. new_task r table cols) rs)"
  by (induction rs) (simp_all add: bulk_load_coroutine)

lemma open_connection_pool_once:
  "open_connection_pool p = (fst (pool_open p), [], snd (pool_open p))"
  by (simp add: open_connection_pool_def numeral_3_eq_3 retry_internal_async_call
      await_call_def del: retry_internal.simps split: prod.splits)

lemma close_connection_pool_once:
  "close_connection_pool p = (fst (pool_close p), [], snd (pool_close p))"
  by (simp add: close_connection_pool_def numeral_3_eq_3 retry_internal_async_call
      await_call_def del: retry_internal.simps split: prod.splits)

subsection \<open>The synchronous part of \<open>execute\<close>\<close>

lemma execute_try_empty_columns: "execute_try cfg st ref (Some []) = execute_try cfg st ref None"
  by (simp add: execute_try_def Let_def split: sum.splits)

lemma execute_dispatching:
  assumes "phase (execute cfg d data names) = Dispatching"
  shows "\<exists>r df. data_df (execute cfg d data names) = Some r \<and>
           r < length (heap (execute cfg d data names)) \<and>
           heap (execute cfg d data names) ! r = df \<and>
           selected_frame data names = Inr df \<and>
           tasks (execute cfg d data names) =
             map (\<lambda>rg. new_task rg (destination cfg) (selected_names data names))
               (chunk_ranges (length (rows data)) (nat (batch_size cfg))) \<and>
           0 < batch_size cfg \<and> 0 \<le> min_conn cfg \<and>
           sem_value (execute cfg d data names) = nat (min_conn cfg) \<and>
           permit_holders (execute cfg d data names) = [] \<and>
           lease_holders (execute cfg d data names) = [] \<and>
           gather_exc (execute cfg d data names) = None"
  using assms
  by (auto simp: execute_def execute_try_def Let_def get_ranges_def handle_csv_bulk_insert_def
      launch_tasks selected_frame_def selected_names_def destination_def nth_append
      split: if_splits sum.splits option.splits list.splits)

lemma execute_returned:
  assumes "phase (execute cfg d data names) \<noteq> Dispatching"
  shows "data_df (execute cfg d data names) = None \<and> tasks (execute cfg d data names) = []"
  using assms
  by (auto simp: execute_def execute_try_def Let_def get_ranges_def handle_csv_bulk_insert_def
      launch_tasks
      split: if_splits sum.splits option.splits list.splits)

lemma execute_heap_prefix:
  "\<exists>extra. heap (execute cfg d data names) = heap d @ [data] @ extra"
  by (auto simp: execute_def execute_try_def Let_def get_ranges_def handle_csv_bulk_insert_def
      launch_tasks
      split: if_splits sum.splits option.splits list.splits)

lemma chunk_ranges_0: "chunk_ranges 0 b = []"
  by (cases "b = 0") (simp_all add: chunk_ranges_def)

text \<open>
  C9. For a dataframe with no rows and a positive batch size the partitioner returns no
  range, and \<open>execute\<close> returns at once and without an exception: it is completed
  before any event, it has launched no task, \<open>self.data_df\<close> is cleared, and no event
  is enabled afterwards.
\<close>

theorem execute_empty_dataset:
  assumes "rows data = []" and "0 < batch_size cfg"
  shows "get_ranges (length (rows data)) (batch_size cfg) = Inr [] \<and>
         phase (execute cfg d data names) = Completed \<and>
         tasks (execute cfg d data names) = [] \<and>
         data_df (execute cfg d data names) = None \<and>
         (\<forall>ev. step (execute cfg d data names) ev = None)"
proof -
  have g: "get_ranges (length (rows data)) (batch_size cfg) = Inr []"
    using assms by (simp add: get_ranges_def chunk_ranges_0)
  have p: "phase (execute cfg d data names) = Completed"
    using assms by (simp add: execute_def execute_try_def Let_def get_ranges_def chunk_ranges_0)
  then have t: "tasks (execute cfg d data names) = []"
    and dd: "data_df (execute cfg d data names) = None"
    using execute_returned [of cfg d data names] by simp_all
  have "step (execute cfg d data names) ev = None" for ev
    using p t by (cases ev) simp_all
  with g p t dd show ?thesis by simp
qed

subsection \<open>Invariants of the event loop\<close>

lemma at_status_update:
  "j < length ts \<Longrightarrow>
   at_status P (ts[j := t]) =
     (if P (status t) then insert j (at_status P ts) else at_status P ts - {j})"
  by (auto simp: at_status_def nth_list_update)

lemma at_status_mem: "i \<in> at_status P ts \<longleftrightarrow> i < length ts \<and> P (status (ts ! i))"
  by (simp add: at_status_def)

lemma holders_acquire:
  assumes "holders_inv n st" "i < length (tasks st)" "status (tasks st ! i) = Pending"
    "0 < sem_value st"
  shows "holders_inv n (set_status i HasPermit (sem_acquire i st))"
proof -
  have "i \<notin> at_status inside_sem (tasks st)" "i \<notin> at_status inside_lease (tasks st)"
    using assms by (simp_all add: at_status_mem)
  then show ?thesis
    using assms
    by (simp add: holders_inv_def set_status_def sem_acquire_def at_status_update)
qed

lemma holders_lease:
  assumes "holders_inv n st" "i < length (tasks st)" "status (tasks st ! i) = HasPermit"
  shows "holders_inv n (set_status i HasLease (lease_acquire i st))"
proof -
  have "i \<in> at_status inside_sem (tasks st)" "i \<notin> at_status inside_lease (tasks st)"
    using assms by (simp_all add: at_status_mem)
  then show ?thesis
    using assms
    by (simp add: holders_inv_def set_status_def lease_acquire_def at_status_update
        insert_absorb)
qed

lemma holders_release_permit:
  assumes "holders_inv n st" "i < length (tasks st)" "status (tasks st ! i) = HasPermit"
    "\<not> inside_sem s" "\<not> inside_lease s"
  shows "holders_inv n (set_status i s (sem_release i st))"
proof -
  have m: "i \<in> at_status inside_sem (tasks st)" "i \<notin> at_status inside_lease (tasks st)"
    using assms by (simp_all add: at_status_mem)
  then have "i \<in> set (permit_holders st)" using assms by (simp add: holders_inv_def)
  then obtain k where "length (permit_holders st) = Suc k"
    by (cases "permit_holders st") auto
  with m show ?thesis
    using assms
    by (simp add: holders_inv_def set_status_def sem_release_def at_status_update
        length_remove1)
qed

lemma holders_release_both:
  assumes "holders_inv n st" "i < length (tasks st)" "inside_lease (status (tasks st ! i))"
    "\<not> inside_sem s" "\<not> inside_lease s"
  shows "holders_inv n (set_status i s (sem_release i (lease_release i st)))"
proof -
  have "inside_sem (status (tasks st ! i))"
    using assms(3) by (cases "status (tasks st ! i)") simp_all
  then have m: "i \<in> at_status inside_sem (tasks st)" "i \<in> at_status inside_lease (tasks st)"
    using assms by (simp_all add: at_status_mem)
  then have "i \<in> set (permit_holders st)" using assms by (simp add: holders_inv_def)
  then obtain k where "length (permit_holders st) = Suc k"
    by (cases "permit_holders st") auto
  with m show ?thesis
    using assms
    by (simp add: holders_inv_def set_status_def sem_release_def lease_release_def
        at_status_update length_remove1)
qed

lemma holders_write:
  assumes "holders_inv n st" "i < length (tasks st)" "status (tasks st ! i) = HasLease"
  shows "holders_inv n (set_status i Wrote (write_slice i df st))"
proof -
  have m: "i \<in> at_status inside_sem (tasks st)" "i \<in> at_status inside_lease (tasks st)"
    using assms by (simp_all add: at_status_mem)
  then show ?thesis
    using assms
    by (simp add: holders_inv_def set_status_def write_slice_def Let_def at_status_update
        insert_absorb)
qed

lemma holders_pending_raise:
  assumes "holders_inv n st" "i < length (tasks st)" "status (tasks st ! i) = Pending"
  shows "holders_inv n (set_status i (Failed e) st)"
proof -
  have m: "i \<notin> at_status inside_sem (tasks st)" "i \<notin> at_status inside_lease (tasks st)"
    using assms by (simp_all add: at_status_mem)
  then show ?thesis
    using assms by (simp add: holders_inv_def set_status_def at_status_update)
qed

lemma holders_gather_exc [simp]: "holders_inv n (st\<lparr>gather_exc := x\<rparr>) = holders_inv n st"
  by (simp add: holders_inv_def)

lemma holders_task_raise [simp]:
  "holders_inv n (task_raise i e st) = holders_inv n (set_status i (Failed e) st)"
  by (simp add: task_raise_def)

lemmas step_defs = set_status_def sem_acquire_def sem_release_def lease_acquire_def
  lease_release_def task_raise_def write_slice_def Let_def

lemma holders_inv_step:
  assumes "holders_inv n st" and "step st ev = Some st'"
  shows "holders_inv n st'"
proof (cases ev)
  case (Acquire i)
  with assms show ?thesis by (auto simp: holders_acquire split: if_splits)
next
  case (Lease i t)
  with assms show ?thesis
    by (auto simp: holders_lease holders_release_permit split: if_splits)
next
  case (Copy i)
  with assms show ?thesis
    by (auto simp: holders_write holders_release_both split: if_splits option.splits)
next
  case (Finish i)
  with assms show ?thesis by (auto simp: holders_release_both split: if_splits)
next
  case (Raise i e)
  with assms show ?thesis
    by (auto simp: holders_pending_raise holders_release_permit holders_release_both
        split: if_splits status.splits)
next
  case Resume
  with assms show ?thesis
    by (auto simp: holders_inv_def split: if_splits option.splits)
qed

lemma map_update_same: "f y = f (xs ! i) \<Longrightarrow> map f (xs[i := y]) = map f xs"
  by (metis list_update_id map_update)

lemma step_static:
  assumes "step st ev = Some st'"
  shows "heap st' = heap st \<and> map static (tasks st') = map static (tasks st)"
proof (cases ev)
  case (Acquire i)
  with assms show ?thesis
    by (auto simp: step_defs static_def map_update_same split: if_splits)
next
  case (Lease i t)
  with assms show ?thesis
    by (auto simp: step_defs static_def map_update_same split: if_splits)
next
  case (Copy i)
  with assms show ?thesis
    by (auto simp: step_defs static_def map_update_same split: if_splits option.splits)
next
  case (Finish i)
  with assms show ?thesis
    by (auto simp: step_defs static_def map_update_same split: if_splits)
next
  case (Raise i e)
  with assms show ?thesis
    by (auto simp: step_defs static_def map_update_same split: if_splits status.splits)
next
  case Resume
  with assms show ?thesis
    by (auto split: if_splits option.splits)
qed

lemma task_ok_move:
  "task_ok df t \<Longrightarrow> \<not> ended (status t) \<Longrightarrow> status t \<noteq> Wrote \<Longrightarrow> s \<noteq> Wrote \<Longrightarrow> s \<noteq> Done
     \<Longrightarrow> task_ok df (t\<lparr>status := s\<rparr>)"
  by (cases "status t"; cases s; simp add: task_ok_def expected_write_def)

lemma task_ok_leave:
  "task_ok df t \<Longrightarrow> status t = Wrote \<Longrightarrow> s = Done \<or> s = Failed e
     \<Longrightarrow> task_ok df (t\<lparr>status := s\<rparr>)"
  by (cases s; simp add: task_ok_def expected_write_def)

lemma task_ok_write:
  "task_ok df t \<Longrightarrow> status t = HasLease
     \<Longrightarrow> task_ok df (t\<lparr>writes := writes t @ [expected_write df t], status := Wrote\<rparr>)"
  by (simp add: task_ok_def expected_write_def)

lemma writes_inv_nth:
  "writes_inv r df st \<Longrightarrow> i < length (tasks st) \<Longrightarrow> task_ok df (tasks st ! i)"
  by (simp add: writes_inv_def)

lemma all_nth_update:
  "\<forall>j<length xs. P (xs ! j) \<Longrightarrow> P y \<Longrightarrow> \<forall>j<length (xs[i := y]). P (xs[i := y] ! j)"
  by (metis length_list_update nth_list_update_eq nth_list_update_neq)

lemma writes_inv_update:
  assumes "writes_inv r df st" and "task_ok df t" and "tasks st' = (tasks st)[i := t]"
    and "heap st' = heap st" and "data_df st' = data_df st" and "phase st' = phase st"
  shows "writes_inv r df st'"
  using assms all_nth_update [of "tasks st" "task_ok df" t i]
  by (simp add: writes_inv_def)

lemma writes_inv_step:
  assumes inv: "writes_inv r df st" and st: "step st ev = Some st'"
  shows "writes_inv r df st'"
proof (cases ev)
  case (Acquire i)
  with st have g: "i < length (tasks st)" "status (tasks st ! i) = Pending"
    and e: "st' = set_status i HasPermit (sem_acquire i st)"
    by (auto split: if_splits)
  have "task_ok df ((tasks st ! i)\<lparr>status := HasPermit\<rparr>)"
    using writes_inv_nth [OF inv g(1)] g(2) by (simp add: task_ok_move)
  then show ?thesis
    by (rule writes_inv_update [OF inv, where i = i]) (simp_all add: e step_defs)
next
  case (Lease i t)
  with st have g: "i < length (tasks st)" "status (tasks st ! i) = HasPermit"
    by (auto split: if_splits)
  show ?thesis
  proof (cases "t \<le> connection_timeout")
    case True
    with st Lease g have e: "st' = set_status i HasLease (lease_acquire i st)" by simp
    have "task_ok df ((tasks st ! i)\<lparr>status := HasLease\<rparr>)"
      using writes_inv_nth [OF inv g(1)] g(2) by (simp add: task_ok_move)
    then show ?thesis
      by (rule writes_inv_update [OF inv, where i = i]) (simp_all add: e step_defs)
  next
    case False
    with st Lease g have e: "st' = task_raise i PoolTimeout (sem_release i st)" by simp
    have "task_ok df ((tasks st ! i)\<lparr>status := Failed PoolTimeout\<rparr>)"
      using writes_inv_nth [OF inv g(1)] g(2) by (simp add: task_ok_move)
    then show ?thesis
      by (rule writes_inv_update [OF inv, where i = i]) (simp_all add: e step_defs)
  qed
next
  case (Copy i)
  with st have g: "i < length (tasks st)" "status (tasks st ! i) = HasLease"
    by (auto split: if_splits)
  note ok = writes_inv_nth [OF inv g(1)]
  show ?thesis
  proof (cases "data_df st")
    case None
    with st Copy g have e: "st' = task_raise i TypeError (sem_release i (lease_release i st))"
      by simp
    have "task_ok df ((tasks st ! i)\<lparr>status := Failed TypeError\<rparr>)"
      using ok g(2) by (simp add: task_ok_move)
    then show ?thesis
      by (rule writes_inv_update [OF inv, where i = i]) (simp_all add: e step_defs)
  next
    case (Some r')
    with inv have r': "r' = r" "heap st ! r' = df"
      by (auto simp: writes_inv_def split: if_splits)
    from st Copy g Some r' have e: "st' = set_status i Wrote (write_slice i df st)"
      by simp
    have "task_ok df ((tasks st ! i)\<lparr>writes := writes (tasks st ! i) @
             [expected_write df (tasks st ! i)], status := Wrote\<rparr>)"
      using ok g(2) by (rule task_ok_write)
    then show ?thesis
      by (rule writes_inv_update [OF inv, where i = i])
        (simp_all add: e step_defs expected_write_def g(1))
  qed
next
  case (Finish i)
  with st have g: "i < length (tasks st)" "status (tasks st ! i) = Wrote"
    and e: "st' = set_status i Done (sem_release i (lease_release i st))"
    by (auto split: if_splits)
  have "task_ok df ((tasks st ! i)\<lparr>status := Done\<rparr>)"
    using writes_inv_nth [OF inv g(1)] g(2) by (simp add: task_ok_leave)
  then show ?thesis
    by (rule writes_inv_update [OF inv, where i = i]) (simp_all add: e step_defs)
next
  case (Raise i x)
  with st have g: "i < length (tasks st)" "\<not> ended (status (tasks st ! i))"
    and e: "tasks st' = (tasks st)[i := (tasks st ! i)\<lparr>status := Failed x\<rparr>]"
      "heap st' = heap st" "data_df st' = data_df st" "phase st' = phase st"
    by (auto simp: step_defs split: if_splits status.splits)
  have "task_ok df ((tasks st ! i)\<lparr>status := Failed x\<rparr>)"
    using writes_inv_nth [OF inv g(1)] g(2)
    by (cases "status (tasks st ! i) = Wrote") (simp_all add: task_ok_leave task_ok_move)
  then show ?thesis
    by (rule writes_inv_update [OF inv, where i = i]) (simp_all add: e)
next
  case Resume
  with assms show ?thesis
    by (auto simp: writes_inv_def split: if_splits option.splits)
qed

lemma step_task:
  assumes "step st ev = Some st'" and "ev \<noteq> Resume"
  shows "\<exists>i s. i < length (tasks st) \<and> \<not> ended (status (tasks st ! i)) \<and>
           phase st' = phase st \<and> statuses st' = (statuses st)[i := s] \<and>
           ((\<forall>e. s \<noteq> Failed e) \<and> gather_exc st' = gather_exc st \<or>
            (\<exists>e. s = Failed e \<and>
               gather_exc st' = (case gather_exc st of None \<Rightarrow> Some e | Some f \<Rightarrow> Some f)))"
proof (cases ev)
  case (Acquire i)
  with assms have g: "i < length (tasks st)" "status (tasks st ! i) = Pending"
    and e: "st' = set_status i HasPermit (sem_acquire i st)"
    by (auto split: if_splits)
  show ?thesis
    by (rule exI [of _ i], rule exI [of _ HasPermit])
      (simp add: g e step_defs statuses_def map_update)
next
  case (Lease i t)
  with assms have g: "i < length (tasks st)" "status (tasks st ! i) = HasPermit"
    by (auto split: if_splits)
  show ?thesis
  proof (cases "t \<le> connection_timeout")
    case True
    with assms Lease g have e: "st' = set_status i HasLease (lease_acquire i st)" by simp
    show ?thesis
      by (rule exI [of _ i], rule exI [of _ HasLease])
        (simp add: g e step_defs statuses_def map_update)
  next
    case False
    with assms Lease g have e: "st' = task_raise i PoolTimeout (sem_release i st)" by simp
    show ?thesis
      by (rule exI [of _ i], rule exI [of _ "Failed PoolTimeout"])
        (simp add: g e step_defs statuses_def map_update)
  qed
next
  case (Copy i)
  with assms have g: "i < length (tasks st)" "status (tasks st ! i) = HasLease"
    by (auto split: if_splits)
  show ?thesis
  proof (cases "data_df st")
    case None
    with assms Copy g
    have e: "st' = task_raise i TypeError (sem_release i (lease_release i st))" by simp
    show ?thesis
      by (rule exI [of _ i], rule exI [of _ "Failed TypeError"])
        (simp add: g e step_defs statuses_def map_update)
  next
    case (Some r)
    with assms Copy g
    have e: "st' = set_status i Wrote (write_slice i (heap st ! r) st)" by simp
    show ?thesis
      by (rule exI [of _ i], rule exI [of _ Wrote])
        (simp add: g e step_defs statuses_def map_update)
  qed
next
  case (Finish i)
  with assms have g: "i < length (tasks st)" "status (tasks st ! i) = Wrote"
    and e: "st' = set_status i Done (sem_release i (lease_release i st))"
    by (auto split: if_splits)
  show ?thesis
    by (rule exI [of _ i], rule exI [of _ Done])
      (simp add: g e step_defs statuses_def map_update)
next
  case (Raise i x)
  with assms have g: "i < length (tasks st)" "\<not> ended (status (tasks st ! i))"
    and e: "statuses st' = (statuses st)[i := Failed x]" "phase st' = phase st"
      "gather_exc st' = (case gather_exc st of None \<Rightarrow> Some x | Some f \<Rightarrow> Some f)"
    by (auto simp: step_defs statuses_def map_update split: if_splits status.splits)
  show ?thesis
    by (rule exI [of _ i], rule exI [of _ "Failed x"]) (simp add: g e)
next
  case Resume
  with assms show ?thesis by simp
qed

lemma set_update_keeps: "x \<in> set xs \<Longrightarrow> xs ! i \<noteq> x \<Longrightarrow> x \<in> set (xs[i := y])"
  by (metis in_set_conv_nth length_list_update nth_list_update_neq)

lemma set_update_new: "x \<in> set (xs[i := y]) \<Longrightarrow> x = y \<or> x \<in> set xs"
  using set_update_subset_insert [of xs i y] by auto

lemma gather_inv_step:
  assumes inv: "gather_inv st" and st: "step st ev = Some st'"
  shows "gather_inv st'"
proof (cases "ev = Resume")
  case True
  with assms show ?thesis
    by (auto simp: gather_inv_def statuses_def list_all_iff split: if_splits option.splits)
next
  case False
  from step_task [OF st False] obtain i s where
    i: "i < length (tasks st)" and live: "\<not> ended (status (tasks st ! i))"
    and ph: "phase st' = phase st" and ss: "statuses st' = (statuses st)[i := s]"
    and g: "(\<forall>e. s \<noteq> Failed e) \<and> gather_exc st' = gather_exc st \<or>
            (\<exists>e. s = Failed e \<and>
               gather_exc st' = (case gather_exc st of None \<Rightarrow> Some e | Some f \<Rightarrow> Some f))"
    by blast
  have nth: "statuses st ! i = status (tasks st ! i)" "i < length (statuses st)"
    using i by (simp_all add: statuses_def)
  have notdone: "phase st \<noteq> Completed"
  proof
    assume "phase st = Completed"
    with inv have "\<forall>s \<in> set (statuses st). s = Done" by (simp add: gather_inv_def)
    with nth have "status (tasks st ! i) = Done" by (metis nth_mem)
    with live show False by simp
  qed
  have keep: "Failed e \<in> set (statuses st')" if "Failed e \<in> set (statuses st)" for e
  proof -
    have "statuses st ! i \<noteq> Failed e" using live nth by auto
    with that show ?thesis unfolding ss by (rule set_update_keeps)
  qed
  have new: "s \<in> set (statuses st')"
    unfolding ss using nth(2) by (rule set_update_memI)
  have g1: "gather_exc st' = None \<longrightarrow> (\<forall>e. Failed e \<notin> set (statuses st'))"
  proof (intro impI allI notI)
    fix e assume n: "gather_exc st' = None" and m: "Failed e \<in> set (statuses st')"
    from g n have s: "\<forall>e. s \<noteq> Failed e" and n': "gather_exc st = None"
      by (auto split: option.splits)
    from m have "Failed e = s \<or> Failed e \<in> set (statuses st)"
      unfolding ss by (rule set_update_new)
    with s inv n' show False by (auto simp: gather_inv_def)
  qed
  have g2: "\<forall>e. gather_exc st' = Some e \<longrightarrow> Failed e \<in> set (statuses st')"
  proof (intro allI impI)
    fix e assume a: "gather_exc st' = Some e"
    show "Failed e \<in> set (statuses st')"
    proof (cases "gather_exc st")
      case None
      with g a have "s = Failed e" by auto
      with new show ?thesis by simp
    next
      case (Some f)
      with g a have "f = e" by auto
      with Some inv have "Failed e \<in> set (statuses st)" by (simp add: gather_inv_def)
      then show ?thesis by (rule keep)
    qed
  qed
  have g4: "\<forall>e. phase st' = Raised e \<longrightarrow> gather_exc st' = Some e"
    using inv g ph by (auto simp: gather_inv_def)
  from g1 g2 g4 notdone inv ph show ?thesis
    by (simp add: gather_inv_def)
qed

subsection \<open>Runs\<close>

lemma advance_leftover:
  assumes "advance st (Leftover k ev) = Some st'"
  shows "\<exists>gs. st' = st\<lparr>earlier := gs\<rparr>"
  using assms by (auto split: if_splits option.splits)

lemma run_invariant:
  assumes "run st ocs = Some st'" and "P st"
    and "\<And>s ev s'. P s \<Longrightarrow> step s ev = Some s' \<Longrightarrow> P s'"
    and "\<And>s gs. P s \<Longrightarrow> P (s\<lparr>earlier := gs\<rparr>)"
  shows "P st'"
  using assms(1,2)
proof (induction ocs arbitrary: st)
  case Nil
  then show ?case by simp
next
  case (Cons oc ocs)
  from Cons.prems(1) obtain s where s: "advance st oc = Some s" "run s ocs = Some st'"
    by (auto split: option.splits)
  have "P s"
  proof (cases oc)
    case (Own ev)
    with s(1) Cons.prems(2) show ?thesis by (auto intro: assms(3))
  next
    case (Leftover k ev)
    with s(1) advance_leftover obtain gs where "s = st\<lparr>earlier := gs\<rparr>" by blast
    with Cons.prems(2) show ?thesis by (simp add: assms(4))
  qed
  with s(2) show ?case by (rule Cons.IH)
qed

lemma run_append:
  "run st (ocs @ ocs') = (case run st ocs of None \<Rightarrow> None | Some st' \<Rightarrow> run st' ocs')"
  by (induction ocs arbitrary: st) (auto split: option.splits)

lemma run_static:
  assumes "run st ocs = Some st'"
  shows "heap st' = heap st \<and> map static (tasks st') = map static (tasks st)"
  using assms
proof (rule run_invariant)
  show "heap st = heap st \<and> map static (tasks st) = map static (tasks st)" by simp
  show "\<And>s ev s'. heap s = heap st \<and> map static (tasks s) = map static (tasks st) \<Longrightarrow>
      step s ev = Some s' \<Longrightarrow> heap s' = heap st \<and> map static (tasks s') = map static (tasks st)"
    by (auto dest: step_static)
  show "\<And>s gs. heap s = heap st \<and> map static (tasks s) = map static (tasks st) \<Longrightarrow>
      heap (s\<lparr>earlier := gs\<rparr>) = heap st \<and>
      map static (tasks (s\<lparr>earlier := gs\<rparr>)) = map static (tasks st)"
    by simp
qed

lemma run_holders_inv:
  assumes "run st ocs = Some st'" and "holders_inv n st"
  shows "holders_inv n st'"
  using assms
proof (rule run_invariant)
  show "\<And>s ev s'. holders_inv n s \<Longrightarrow> step s ev = Some s' \<Longrightarrow> holders_inv n s'"
    by (rule holders_inv_step)
  show "\<And>s gs. holders_inv n s \<Longrightarrow> holders_inv n (s\<lparr>earlier := gs\<rparr>)"
    by (simp add: holders_inv_def)
qed

lemma run_writes_inv:
  assumes "run st ocs = Some st'" and "writes_inv r df st"
  shows "writes_inv r df st'"
  using assms
proof (rule run_invariant)
  show "\<And>s ev s'. writes_inv r df s \<Longrightarrow> step s ev = Some s' \<Longrightarrow> writes_inv r df s'"
    by (rule writes_inv_step)
  show "\<And>s gs. writes_inv r df s \<Longrightarrow> writes_inv r df (s\<lparr>earlier := gs\<rparr>)"
    by (simp add: writes_inv_def)
qed

lemma run_gather_inv:
  assumes "run st ocs = Some st'" and "gather_inv st"
  shows "gather_inv st'"
  using assms
proof (rule run_invariant)
  show "\<And>s ev s'. gather_inv s \<Longrightarrow> step s ev = Some s' \<Longrightarrow> gather_inv s'"
    by (rule gather_inv_step)
  show "\<And>s gs. gather_inv s \<Longrightarrow> gather_inv (s\<lparr>earlier := gs\<rparr>)"
    by (simp add: gather_inv_def statuses_def)
qed

lemma step_no_tasks:
  assumes "tasks st = []" and "phase st \<noteq> Dispatching"
  shows "step st ev = None"
  using assms by (cases ev) simp_all

lemma run_no_tasks:
  assumes r: "run st ocs = Some st'" and t: "tasks st = []" and p: "phase st \<noteq> Dispatching"
  shows "tasks st' = [] \<and> phase st' = phase st \<and> data_df st' = data_df st \<and>
         permit_holders st' = permit_holders st \<and> lease_holders st' = lease_holders st"
  using r
proof (rule run_invariant)
  show "tasks st = [] \<and> phase st = phase st \<and> data_df st = data_df st \<and>
         permit_holders st = permit_holders st \<and> lease_holders st = lease_holders st"
    using t by simp
  show "\<And>s ev s'. tasks s = [] \<and> phase s = phase st \<and> data_df s = data_df st \<and>
         permit_holders s = permit_holders st \<and> lease_holders s = lease_holders st \<Longrightarrow>
       step s ev = Some s' \<Longrightarrow>
       tasks s' = [] \<and> phase s' = phase st \<and> data_df s' = data_df st \<and>
         permit_holders s' = permit_holders st \<and> lease_holders s' = lease_holders st"
    using p by (simp add: step_no_tasks)
  show "\<And>s gs. tasks s = [] \<and> phase s = phase st \<and> data_df s = data_df st \<and>
         permit_holders s = permit_holders st \<and> lease_holders s = lease_holders st \<Longrightarrow>
       tasks (s\<lparr>earlier := gs\<rparr>) = [] \<and> phase (s\<lparr>earlier := gs\<rparr>) = phase st \<and>
         data_df (s\<lparr>earlier := gs\<rparr>) = data_df st \<and>
         permit_holders (s\<lparr>earlier := gs\<rparr>) = permit_holders st \<and>
         lease_holders (s\<lparr>earlier := gs\<rparr>) = lease_holders st"
    by simp
qed

lemma execute_inv:
  assumes "phase (execute cfg d data names) = Dispatching"
  shows "\<exists>r df. selected_frame data names = Inr df \<and>
           holders_inv (nat (min_conn cfg)) (execute cfg d data names) \<and>
           writes_inv r df (execute cfg d data names) \<and>
           gather_inv (execute cfg d data names)"
proof -
  from execute_dispatching [OF assms] obtain r df where
    f: "data_df (execute cfg d data names) = Some r"
       "r < length (heap (execute cfg d data names))"
       "heap (execute cfg d data names) ! r = df"
       "selected_frame data names = Inr df"
       "tasks (execute cfg d data names) =
          map (\<lambda>rg. new_task rg (destination cfg) (selected_names data names))
            (chunk_ranges (length (rows data)) (nat (batch_size cfg)))"
       "sem_value (execute cfg d data names) = nat (min_conn cfg)"
       "permit_holders (execute cfg d data names) = []"
       "lease_holders (execute cfg d data names) = []"
       "gather_exc (execute cfg d data names) = None"
    by blast
  have "holders_inv (nat (min_conn cfg)) (execute cfg d data names)"
    using f by (auto simp: holders_inv_def at_status_def new_task_def)
  moreover have "writes_inv r df (execute cfg d data names)"
    using f assms by (auto simp: writes_inv_def task_ok_def new_task_def)
  moreover have "gather_inv (execute cfg d data names)"
    using f assms by (auto simp: gather_inv_def statuses_def new_task_def)
  ultimately show ?thesis using f(4) by blast
qed

lemma run_execute_inv:
  assumes r: "run (execute cfg d data names) evs = Some st"
    and p: "phase (execute cfg d data names) = Dispatching"
  shows "\<exists>r df. selected_frame data names = Inr df \<and>
           holders_inv (nat (min_conn cfg)) st \<and> writes_inv r df st \<and> gather_inv st"
proof -
  from execute_inv [OF p] obtain r' df where
    i: "selected_frame data names = Inr df"
       "holders_inv (nat (min_conn cfg)) (execute cfg d data names)"
       "writes_inv r' df (execute cfg d data names)"
       "gather_inv (execute cfg d data names)"
    by blast
  have "holders_inv (nat (min_conn cfg)) st"
    using r i(2) by (rule run_holders_inv)
  moreover have "writes_inv r' df st"
    using r i(3) by (rule run_writes_inv)
  moreover have "gather_inv st"
    using r i(4) by (rule run_gather_inv)
  ultimately show ?thesis using i(1) by blast
qed

lemma run_execute_tasks:
  assumes r: "run (execute cfg d data names) evs = Some st"
    and p: "phase (execute cfg d data names) = Dispatching"
  shows "map static (tasks st) =
           map (\<lambda>rg. (rg, destination cfg, selected_names data names))
             (chunk_ranges (length (rows data)) (nat (batch_size cfg)))"
proof -
  from execute_dispatching [OF p]
  have "tasks (execute cfg d data names) =
          map (\<lambda>rg. new_task rg (destination cfg) (selected_names data names))
            (chunk_ranges (length (rows data)) (nat (batch_size cfg)))"
    by blast
  then have "map static (tasks (execute cfg d data names)) =
           map (\<lambda>rg. (rg, destination cfg, selected_names data names))
             (chunk_ranges (length (rows data)) (nat (batch_size cfg)))"
    by (simp add: static_def new_task_def comp_def)
  with run_static [OF r] show ?thesis by simp
qed

lemma run_execute_returned:
  assumes r: "run (execute cfg d data names) evs = Some st"
    and p: "phase (execute cfg d data names) \<noteq> Dispatching"
  shows "phase st = phase (execute cfg d data names)" and "tasks st = []"
    and "data_df st = None" and "permit_holders st = []" and "lease_holders st = []"
proof -
  from execute_returned [OF p] have t: "tasks (execute cfg d data names) = []"
    and dd: "data_df (execute cfg d data names) = None" by simp_all
  have h: "permit_holders (execute cfg d data names) = []"
    "lease_holders (execute cfg d data names) = []"
    using p
    by (auto simp: execute_def execute_try_def Let_def get_ranges_def handle_csv_bulk_insert_def
      launch_tasks split: if_splits sum.splits option.splits list.splits)
  note e = run_no_tasks [OF r t p]
  show "phase st = phase (execute cfg d data names)" "tasks st = []" using e by simp_all
  show "data_df st = None" using e dd by simp
  show "permit_holders st = []" "lease_holders st = []" using e h by simp_all
qed

subsection \<open>The limiter\<close>

lemma run_execute_holders:
  assumes r: "run (execute cfg d data names) evs = Some st"
  shows "distinct (permit_holders st) \<and> distinct (lease_holders st) \<and>
         set (permit_holders st) = at_status inside_sem (tasks st) \<and>
         set (lease_holders st) = at_status inside_lease (tasks st) \<and>
         (tasks st \<noteq> [] \<longrightarrow>
            0 \<le> min_conn cfg \<and> sem_value st + length (permit_holders st) = nat (min_conn cfg))"
proof (cases "phase (execute cfg d data names) = Dispatching")
  case True
  from execute_dispatching [OF True] have "0 \<le> min_conn cfg" by blast
  with run_execute_inv [OF r True] show ?thesis by (auto simp: holders_inv_def)
next
  case False
  from run_execute_returned [OF r False] show ?thesis by (simp add: at_status_def)
qed

text \<open>
  C2. Every task of a call works with the one semaphore that the call has made from
  \<open>min_conn\<close>. In every state of the call the tasks that hold a permit are exactly those
  that stand inside the block of \<open>async with semaphore\<close>, none of them twice, their
  number and the semaphore's counter add up to \<open>min_conn\<close>, and so their number never
  exceeds \<open>min_conn\<close>.
\<close>

theorem permits_bounded_by_min_conn:
  assumes "run (execute cfg d data names) evs = Some st" and "0 \<le> min_conn cfg"
  shows "distinct (permit_holders st) \<and>
         set (permit_holders st) =
           {i. i < length (tasks st) \<and> inside_sem (status (tasks st ! i))} \<and>
         (tasks st \<noteq> [] \<longrightarrow>
            int (sem_value st) + int (length (permit_holders st)) = min_conn cfg) \<and>
         int (length (permit_holders st)) \<le> min_conn cfg"
proof -
  note h = run_execute_holders [OF assms(1)]
  have "int (length (permit_holders st)) \<le> min_conn cfg"
  proof (cases "tasks st = []")
    case True
    with h have "set (permit_holders st) = {}" by (simp add: at_status_def)
    with assms(2) show ?thesis by simp
  next
    case False
    with h have "sem_value st + length (permit_holders st) = nat (min_conn cfg)" by simp
    with assms(2) show ?thesis by linarith
  qed
  moreover have "tasks st \<noteq> [] \<longrightarrow>
            int (sem_value st) + int (length (permit_holders st)) = min_conn cfg"
    using h by auto
  ultimately show ?thesis using h by (simp add: at_status_def)
qed

text \<open>
  C3. In every state of a call: a task that has not yet passed \<open>async with semaphore\<close>
  or that has ended, by returning or by any exception, a cancellation included, holds
  no permit and no connection; a task that holds a connection holds a permit. The
  connection is asked for by a task that holds a permit and no connection, with the
  timeout of 60: when the pool answers in time the task holds both, and when it does
  not the task ends with \<open>PoolTimeout\<close> and holds neither. Once all tasks have ended
  the semaphore's counter is back at \<open>min_conn\<close> and nothing is held.
\<close>

theorem attempt_releases_lease_and_permit:
  assumes "run (execute cfg d data names) evs = Some st"
  shows "(\<forall>i < length (tasks st).
            (status (tasks st ! i) = Pending \<or> ended (status (tasks st ! i)) \<longrightarrow>
               i \<notin> set (permit_holders st) \<and> i \<notin> set (lease_holders st)) \<and>
            (i \<in> set (lease_holders st) \<longrightarrow> i \<in> set (permit_holders st))) \<and>
         (\<forall>i t st'. step st (Lease i t) = Some st' \<longrightarrow>
            i \<in> set (permit_holders st) \<and> i \<notin> set (lease_holders st) \<and>
            (if t \<le> 60
             then status (tasks st' ! i) = HasLease \<and>
                  i \<in> set (permit_holders st') \<and> i \<in> set (lease_holders st')
             else status (tasks st' ! i) = Failed PoolTimeout \<and>
                  i \<notin> set (permit_holders st') \<and> i \<notin> set (lease_holders st'))) \<and>
         (tasks st \<noteq> [] \<and> (\<forall>i < length (tasks st). ended (status (tasks st ! i))) \<longrightarrow>
            int (sem_value st) = min_conn cfg \<and>
            permit_holders st = [] \<and> lease_holders st = [])"
proof -
  note h = run_execute_holders [OF assms]
  have n: "\<not> inside_sem s \<and> \<not> inside_lease s" if "s = Pending \<or> ended s" for s
    using that by (cases s) auto
  have m: "inside_sem s" if "inside_lease s" for s
    using that by (cases s) simp_all
  have A: "(status (tasks st ! i) = Pending \<or> ended (status (tasks st ! i)) \<longrightarrow>
               i \<notin> set (permit_holders st) \<and> i \<notin> set (lease_holders st)) \<and>
            (i \<in> set (lease_holders st) \<longrightarrow> i \<in> set (permit_holders st))" for i
    using h n [of "status (tasks st ! i)"] m [of "status (tasks st ! i)"]
    by (auto simp: at_status_def)
  have B: "i \<in> set (permit_holders st) \<and> i \<notin> set (lease_holders st) \<and>
            (if t \<le> 60
             then status (tasks st' ! i) = HasLease \<and>
                  i \<in> set (permit_holders st') \<and> i \<in> set (lease_holders st')
             else status (tasks st' ! i) = Failed PoolTimeout \<and>
                  i \<notin> set (permit_holders st') \<and> i \<notin> set (lease_holders st'))"
    if s: "step st (Lease i t) = Some st'" for i t st'
  proof -
    from s have g: "i < length (tasks st)" "status (tasks st ! i) = HasPermit"
      by (auto split: if_splits)
    have "run (execute cfg d data names) (evs @ [Own (Lease i t)]) = Some st'"
      using assms s by (simp add: run_append)
    note h' = run_execute_holders [OF this]
    have l: "length (tasks st') = length (tasks st)"
      using step_static [OF s] by (metis length_map)
    show ?thesis
    proof (cases "t \<le> 60")
      case True
      with s g have "status (tasks st' ! i) = HasLease"
        by (auto simp: step_defs connection_timeout_def)
      with h h' g l True show ?thesis by (simp add: at_status_def)
    next
      case False
      with s g have "status (tasks st' ! i) = Failed PoolTimeout"
        by (auto simp: step_defs connection_timeout_def)
      with h h' g l False show ?thesis by (simp add: at_status_def)
    qed
  qed
  have C: "int (sem_value st) = min_conn cfg \<and> permit_holders st = [] \<and> lease_holders st = []"
    if a: "tasks st \<noteq> [] \<and> (\<forall>i < length (tasks st). ended (status (tasks st ! i)))"
  proof -
    from a n have "at_status inside_sem (tasks st) = {}" "at_status inside_lease (tasks st) = {}"
      by (auto simp: at_status_def)
    with h have e: "permit_holders st = []" "lease_holders st = []" by simp_all
    with h a have "int (sem_value st) = min_conn cfg" by auto
    with e show ?thesis by simp
  qed
  from A B C show ?thesis by blast
qed

subsection \<open>What a transfer sends\<close>

lemma run_execute_task:
  assumes r: "run (execute cfg d data names) evs = Some st" and i: "i < length (tasks st)"
  shows "phase (execute cfg d data names) = Dispatching"
    and "i < length (chunk_ranges (length (rows data)) (nat (batch_size cfg)))"
    and "row_range (tasks st ! i) = chunk_ranges (length (rows data)) (nat (batch_size cfg)) ! i"
    and "dest (tasks st ! i) = destination cfg"
    and "col_names (tasks st ! i) = selected_names data names"
proof -
  show p: "phase (execute cfg d data names) = Dispatching"
    using run_execute_returned(2) [OF r] i by fastforce
  note t = run_execute_tasks [OF r p]
  from t have l: "length (tasks st) = length (chunk_ranges (length (rows data)) (nat (batch_size cfg)))"
    by (metis length_map)
  with i show "i < length (chunk_ranges (length (rows data)) (nat (batch_size cfg)))" by simp
  from t have "map static (tasks st) ! i =
      map (\<lambda>rg. (rg, destination cfg, selected_names data names))
        (chunk_ranges (length (rows data)) (nat (batch_size cfg))) ! i"
    by simp
  with i l have "static (tasks st ! i) =
      (chunk_ranges (length (rows data)) (nat (batch_size cfg)) ! i, destination cfg,
       selected_names data names)"
    by simp
  then show "row_range (tasks st ! i) = chunk_ranges (length (rows data)) (nat (batch_size cfg)) ! i"
    "dest (tasks st ! i) = destination cfg" "col_names (tasks st ! i) = selected_names data names"
    by (simp_all add: static_def)
qed









subsection \<open>The column selection\<close>

lemma execute_no_selection:
  assumes "phase (execute cfg d data None) = Dispatching"
  shows "data_df (execute cfg d data None) = Some (length (heap d)) \<and>
         heap (execute cfg d data None) = heap d @ [data]"
  using assms
  by (auto simp: execute_def execute_try_def Let_def get_ranges_def handle_csv_bulk_insert_def
      launch_tasks split: if_splits sum.splits)

text \<open>
  C10. A call of \<open>execute\<close> with the empty list of column names is the same call as one
  with no column names: it reaches the same state, and so every run from it is the
  same. No selection is made: the dataframe in use is the caller's, \<open>self.data_df\<close>
  refers to the caller's object itself when tasks are launched, and the column names
  handed to the tasks are all the columns of the dataframe in their order.
\<close>

theorem empty_column_list_is_no_selection:
  "execute cfg d data (Some []) = execute cfg d data None \<and>
   (\<forall>evs. run (execute cfg d data (Some [])) evs = run (execute cfg d data None) evs) \<and>
   selected_frame data (Some []) = Inr data \<and>
   selected_names data (Some []) = str_join [CHR 0x2C] (columns data) \<and>
   (phase (execute cfg d data (Some [])) = Dispatching \<longrightarrow>
      data_df (execute cfg d data (Some [])) = Some (length (heap d)) \<and>
      heap (execute cfg d data (Some [])) = heap d @ [data] \<and>
      (\<forall>t \<in> set (tasks (execute cfg d data (Some []))).
         col_names t = str_join [CHR 0x2C] (columns data)))"
proof -
  have e: "execute cfg d data (Some []) = execute cfg d data None"
    by (simp add: execute_def execute_try_empty_columns)
  have "col_names t = str_join [CHR 0x2C] (columns data)"
    if "phase (execute cfg d data None) = Dispatching"
      and "t \<in> set (tasks (execute cfg d data None))" for t
    using execute_dispatching [OF that(1)] that(2)
    by (auto simp: new_task_def selected_names_def)
  with e execute_no_selection [of cfg d data] show ?thesis
    by (simp add: selected_frame_def selected_names_def)
qed

subsection \<open>The dataframe held by the dispatcher\<close>

lemma run_execute_data_df:
  assumes r: "run (execute cfg d data names) evs = Some st"
  shows "(phase st \<noteq> Dispatching \<longrightarrow> data_df st = None) \<and>
         (\<forall>r. data_df st = Some r \<longrightarrow>
            r < length (heap st) \<and> selected_frame data names = Inr (heap st ! r) \<and>
            length (heap d) \<le> r)"
proof (cases "phase (execute cfg d data names) = Dispatching")
  case False
  from run_execute_returned [OF r False] show ?thesis by simp
next
  case True
  from execute_inv [OF True] obtain r' df where
    i: "selected_frame data names = Inr df" "writes_inv r' df (execute cfg d data names)"
    by blast
  have "writes_inv r' df st"
    using r i(2) by (rule run_writes_inv)
  moreover have "length (heap d) \<le> r'"
    using i(2) True
    by (auto simp: writes_inv_def execute_def execute_try_def Let_def get_ranges_def
        handle_csv_bulk_insert_def launch_tasks
        split: if_splits sum.splits option.splits list.splits)
  ultimately show ?thesis using i(1) by (auto simp: writes_inv_def split: if_splits)
qed

lemma run_execute_heap:
  assumes r: "run (execute cfg d data names) evs = Some st"
  shows "\<exists>extra. heap st = heap d @ [data] @ extra"
  using run_static [OF r] execute_heap_prefix [of cfg d data names] by auto

lemma session_cleared:
  assumes "session cfg st calls = Some st'" and "phase st \<noteq> Dispatching \<longrightarrow> data_df st = None"
  shows "phase st' \<noteq> Dispatching \<longrightarrow> data_df st' = None"
  using assms
proof (induction calls arbitrary: st)
  case Nil
  then show ?case by simp
next
  case (Cons c calls)
  obtain data names evs where c: "c = (data, names, evs)" by (cases c)
  from Cons.prems(1) c obtain s where
    s: "run (execute cfg st data names) evs = Some s" "session cfg s calls = Some st'"
    by (auto split: if_splits option.splits)
  from run_execute_data_df [OF s(1)] have "phase s \<noteq> Dispatching \<longrightarrow> data_df s = None"
    by blast
  with s(2) show ?case by (rule Cons.IH)
qed

text \<open>
  C8. Let \<open>d\<close> be the dispatcher after any calls of \<open>execute\<close>, one after the other, of
  which the last has returned or raised, or after none. Then \<open>self.data_df\<close> is absent
  when the next call is entered. In every state of that call: once the call has
  completed or raised, \<open>self.data_df\<close> is absent; whenever it is present it refers to
  the dataframe of this call (the caller's, or the selection made from it in this
  call), never to an object of an earlier call; and the caller's dataframe and every
  object that existed before the call are as they were.
\<close>

theorem dataset_reference_cleared:
  assumes "session cfg (BatchInsert_init h) calls = Some d" and "phase d \<noteq> Dispatching"
    and "run (execute cfg d data names) evs = Some st"
  shows "data_df d = None \<and>
         (phase st \<noteq> Dispatching \<longrightarrow> data_df st = None) \<and>
         (\<forall>r. data_df st = Some r \<longrightarrow>
            r < length (heap st) \<and> selected_frame data names = Inr (heap st ! r) \<and>
            length (heap d) \<le> r) \<and>
         heap st ! length (heap d) = data \<and>
         (\<forall>r < length (heap d). heap st ! r = heap d ! r)"
proof -
  have "phase d \<noteq> Dispatching \<longrightarrow> data_df d = None"
    using assms(1) by (rule session_cleared) (simp add: BatchInsert_init_def)
  with assms(2) have 1: "data_df d = None" by simp
  from run_execute_heap [OF assms(3)] obtain extra where
    "heap st = heap d @ [data] @ extra" by blast
  then have 2: "heap st ! length (heap d) = data" "\<forall>r < length (heap d). heap st ! r = heap d ! r"
    by (simp_all add: nth_append)
  from 1 2 run_execute_data_df [OF assms(3)] show ?thesis by simp
qed

subsection \<open>What any transfer sends, left-over tasks included\<close>















subsection \<open>Failures\<close>

lemmas example_defs = example_call_def example_cfg_def example_df_def BatchInsert_init_def
  execute_def execute_try_def get_ranges_def chunk_ranges_def handle_csv_bulk_insert_def
  launch_tasks new_task_def step_defs connection_timeout_def upt_rec with_group_def
  group_of_def

lemma gather_exc_kept:
  assumes "step st ev = Some st'" and "gather_exc st = Some e"
  shows "gather_exc st' = Some e"
proof (cases "ev = Resume")
  case True
  with assms show ?thesis by (auto split: if_splits)
next
  case False
  from step_task [OF assms(1) False] assms(2) show ?thesis by auto
qed

lemma advance_gather_exc_kept:
  assumes "advance st oc = Some st'" and "gather_exc st = Some e"
  shows "gather_exc st' = Some e"
proof (cases oc)
  case (Own ev)
  with assms show ?thesis by (auto intro: gather_exc_kept)
next
  case (Leftover k ev)
  with assms(1) advance_leftover obtain gs where "st' = st\<lparr>earlier := gs\<rparr>" by blast
  with assms(2) show ?thesis by simp
qed

text \<open>
  C1, as the code has it. While \<open>execute\<close> waits for \<open>gather\<close> and a transfer task has
  ended with an exception, \<open>gather\<close> holds the exception of a task that failed, nothing
  that happens later replaces it, and the resumed \<open>execute\<close> clears \<open>self.data_df\<close> and raises
  exactly that exception. Resuming changes nothing else: the other tasks are neither
  cancelled nor waited for, whatever they are doing.
\<close>

theorem execute_raises_first_failure:
  assumes "run (execute cfg d data names) evs = Some st" and "phase st = Dispatching"
    and "i < length (tasks st)" and "status (tasks st ! i) = Failed e"
  shows "\<exists>first j. gather_exc st = Some first \<and>
           j < length (tasks st) \<and> status (tasks st ! j) = Failed first \<and>
           (\<forall>ev st'. step st ev = Some st' \<longrightarrow> gather_exc st' = Some first) \<and>
           step st Resume = Some (st\<lparr>data_df := None, phase := Raised first\<rparr>) \<and>
           (\<forall>oc st'. advance st oc = Some st' \<longrightarrow> gather_exc st' = Some first)"
proof -
  have p: "phase (execute cfg d data names) = Dispatching"
    using run_execute_task(1) [OF assms(1,3)] .
  from run_execute_inv [OF assms(1) p] have gi: "gather_inv st" by blast
  have "statuses st ! i = Failed e" "i < length (statuses st)"
    using assms(3,4) by (simp_all add: statuses_def)
  then have "Failed e \<in> set (statuses st)" by (metis nth_mem)
  with gi obtain first where f: "gather_exc st = Some first"
    by (cases "gather_exc st") (auto simp: gather_inv_def)
  with gi have "Failed first \<in> set (statuses st)" by (simp add: gather_inv_def)
  then obtain j where "j < length (statuses st)" "statuses st ! j = Failed first"
    by (auto simp: in_set_conv_nth)
  then have j: "j < length (tasks st)" "status (tasks st ! j) = Failed first"
    by (simp_all add: statuses_def)
  have "step st Resume = Some (st\<lparr>data_df := None, phase := Raised first\<rparr>)"
    using assms(2) f by simp
  with f j gather_exc_kept advance_gather_exc_kept show ?thesis by blast
qed

text \<open>
  C1, as it is stated, fails: with two tasks holding a permit, the pool lets the first
  wait past its timeout; \<open>execute\<close> raises \<open>PoolTimeout\<close> while the second task still
  waits for its connection. That task goes on afterwards, gets its connection, finds
  \<open>self.data_df\<close> cleared at line 91 and ends with \<open>TypeError\<close>.
\<close>

theorem execute_returns_before_tasks_end:
  "run example_call [Own (Acquire 0), Own (Acquire 1), Own (Lease 0 61), Own Resume] \<noteq> None \<and>
   phase (the (run example_call [Own (Acquire 0), Own (Acquire 1), Own (Lease 0 61), Own Resume]))
     = Raised PoolTimeout \<and>
   map status (tasks (the (run example_call [Own (Acquire 0), Own (Acquire 1), Own (Lease 0 61), Own Resume])))
     = [Failed PoolTimeout, HasPermit] \<and>
   \<not> ended (status (tasks (the (run example_call
        [Own (Acquire 0), Own (Acquire 1), Own (Lease 0 61), Own Resume])) ! 1)) \<and>
   map status (tasks (the (run example_call
        [Own (Acquire 0), Own (Acquire 1), Own (Lease 0 61), Own Resume, Own (Lease 1 5), Own (Copy 1)])))
     = [Failed PoolTimeout, Failed TypeError]"
  by (simp add: example_defs)

text \<open>
  C4 fails on the code. The decorator wraps the call that makes the coroutine, which
  never raises, so its loop ends in the first round and never sleeps; the body runs
  when the coroutine is awaited, once. A pool whose \<open>open\<close> (or \<open>close\<close>) fails once and
  would then succeed: the code raises the first error, with no delay and no second
  attempt, where the retry policy applied to the operation itself waits 2 units and
  succeeds. For a transfer, the decorated \<open>bulk_load\<close> returns the coroutine at once,
  and one failure of the task makes \<open>execute\<close> raise.
\<close>

theorem retry_decorator_runs_operation_once:
  "open_connection_pool [Inl PoolLifecycleError, Inr ()]
     = (Inl PoolLifecycleError, [], [Inr ()]) \<and>
   close_connection_pool [Inl PoolLifecycleError, Inr ()]
     = (Inl PoolLifecycleError, [], [Inr ()]) \<and>
   retry_policy pool_open [Inl PoolLifecycleError, Inr ()] = (Inr (Some ()), [2], []) \<and>
   bulk_load (0, 2) ''public.items'' ''id,name''
     = (Inr (Some (new_task (0, 2) ''public.items'' ''id,name'')), [], ()) \<and>
   phase (the (run example_call
     [Own (Acquire 0), Own (Lease 0 0), Own (Raise 0 TransferProtocolError), Own Resume]))
     = Raised TransferProtocolError"
  by (simp add: open_connection_pool_once close_connection_pool_once bulk_load_coroutine
      retry_policy_def pool_open_def pool_close_def numeral_3_eq_3 example_defs)

subsection \<open>The statements on a concrete call\<close>

theorem permits_bounded_by_min_conn_witness:
  "run example_call [Own (Acquire 0), Own (Acquire 1)] = Some example_both_inside \<and>
   0 \<le> min_conn example_cfg \<and>
   distinct (permit_holders example_both_inside) \<and>
   set (permit_holders example_both_inside) =
     {i. i < length (tasks example_both_inside) \<and>
         inside_sem (status (tasks example_both_inside ! i))} \<and>
   tasks example_both_inside \<noteq> [] \<and>
   int (sem_value example_both_inside) + int (length (permit_holders example_both_inside))
     = min_conn example_cfg \<and>
   int (length (permit_holders example_both_inside)) \<le> min_conn example_cfg"
proof -
  have r: "run example_call [Own (Acquire 0), Own (Acquire 1)] = Some example_both_inside"
    by (simp add: example_both_inside_def example_defs)
  have m: "0 \<le> min_conn example_cfg" by (simp add: example_cfg_def)
  have n: "tasks example_both_inside \<noteq> []"
    by (simp add: example_both_inside_def example_defs)
  note t = permits_bounded_by_min_conn [OF r [unfolded example_call_def] m]
  note t1 = t [THEN conjunct1]
  note t2 = t [THEN conjunct2, THEN conjunct1]
  note t3 = t [THEN conjunct2, THEN conjunct2, THEN conjunct1, THEN mp, OF n]
  note t4 = t [THEN conjunct2, THEN conjunct2, THEN conjunct2]
  show ?thesis
    by (rule conjI [OF r conjI [OF m conjI [OF t1 conjI [OF t2 conjI [OF n conjI [OF t3 t4]]]]]])
qed

theorem attempt_releases_lease_and_permit_witness:
  "run example_call [Own (Acquire 0), Own (Acquire 1), Own (Lease 0 61)] = Some example_failed \<and>
   ended (status (tasks example_failed ! 0)) \<and>
   0 \<notin> set (permit_holders example_failed) \<and> 0 \<notin> set (lease_holders example_failed) \<and>
   step example_failed (Lease 1 5) = Some example_leased \<and>
   1 \<in> set (permit_holders example_failed) \<and> 1 \<notin> set (lease_holders example_failed) \<and>
   status (tasks example_leased ! 1) = HasLease \<and>
   1 \<in> set (permit_holders example_leased) \<and> 1 \<in> set (lease_holders example_leased) \<and>
   run example_call
     [Own (Acquire 0), Own (Acquire 1), Own (Lease 0 3), Own (Lease 1 60), Own (Copy 1), Own (Copy 0), Own (Finish 0), Own (Finish 1), Own Resume]
     = Some example_completed \<and>
   tasks example_completed \<noteq> [] \<and>
   int (sem_value example_completed) = min_conn example_cfg \<and>
   permit_holders example_completed = [] \<and> lease_holders example_completed = []"
proof -
  have r: "run example_call [Own (Acquire 0), Own (Acquire 1), Own (Lease 0 61)] = Some example_failed"
    by (simp add: example_failed_def example_defs)
  have i: "0 < length (tasks example_failed)" and e: "ended (status (tasks example_failed ! 0))"
    by (simp_all add: example_failed_def example_defs)
  have s: "step example_failed (Lease 1 5) = Some example_leased"
    by (simp add: example_leased_def example_failed_def example_defs)
  note t = attempt_releases_lease_and_permit [OF r [unfolded example_call_def]]
  from t i e have a: "0 \<notin> set (permit_holders example_failed) \<and>
      0 \<notin> set (lease_holders example_failed)"
    by blast
  from t s have "1 \<in> set (permit_holders example_failed) \<and>
      1 \<notin> set (lease_holders example_failed) \<and>
      (if (5::nat) \<le> 60
       then status (tasks example_leased ! 1) = HasLease \<and>
            1 \<in> set (permit_holders example_leased) \<and> 1 \<in> set (lease_holders example_leased)
       else status (tasks example_leased ! 1) = Failed PoolTimeout \<and>
            1 \<notin> set (permit_holders example_leased) \<and>
            1 \<notin> set (lease_holders example_leased))"
    by blast
  then have b: "1 \<in> set (permit_holders example_failed) \<and>
      1 \<notin> set (lease_holders example_failed) \<and>
      status (tasks example_leased ! 1) = HasLease \<and>
      1 \<in> set (permit_holders example_leased) \<and> 1 \<in> set (lease_holders example_leased)"
    by simp
  have r': "run example_call
     [Own (Acquire 0), Own (Acquire 1), Own (Lease 0 3), Own (Lease 1 60), Own (Copy 1), Own (Copy 0), Own (Finish 0), Own (Finish 1), Own Resume]
     = Some example_completed"
    by (simp add: example_completed_def example_defs)
  have n: "tasks example_completed \<noteq> []"
    and d: "\<forall>i < length (tasks example_completed). ended (status (tasks example_completed ! i))"
    by (simp_all add: example_completed_def example_defs less_Suc_eq)
  note t' = attempt_releases_lease_and_permit [OF r' [unfolded example_call_def]]
  from t' n d have c: "int (sem_value example_completed) = min_conn example_cfg \<and>
      permit_holders example_completed = [] \<and> lease_holders example_completed = []"
    by blast
  from r e a s b r' n c show ?thesis by blast
qed


theorem dataset_reference_cleared_witness:
  "session example_cfg (BatchInsert_init [])
     [(example_df, None, [Own (Acquire 0), Own (Acquire 1), Own (Lease 0 61), Own Resume])]
     = Some example_after_raise \<and>
   phase example_after_raise \<noteq> Dispatching \<and>
   data_df example_after_raise = None \<and>
   run (execute example_cfg example_after_raise example_df (Some [''name''])) [Own (Acquire 0)]
     = Some example_next_call \<and>
   data_df example_next_call = Some 2 \<and>
   2 < length (heap example_next_call) \<and>
   selected_frame example_df (Some [''name'']) = Inr (heap example_next_call ! 2) \<and>
   length (heap example_after_raise) \<le> 2 \<and>
   heap example_next_call ! length (heap example_after_raise) = example_df \<and>
   0 < length (heap example_after_raise) \<and>
   heap example_next_call ! 0 = heap example_after_raise ! 0 \<and>
   run (execute example_cfg example_after_raise example_df (Some [''name'']))
     [Own (Acquire 0), Own (Raise 0 TransferProtocolError), Own Resume]
     = Some example_next_raised \<and>
   phase example_next_raised \<noteq> Dispatching \<and>
   data_df example_next_raised = None"
proof -
  have s: "session example_cfg (BatchInsert_init [])
     [(example_df, None, [Own (Acquire 0), Own (Acquire 1), Own (Lease 0 61), Own Resume])]
     = Some example_after_raise"
    by (simp add: example_after_raise_def example_defs)
  have p: "phase example_after_raise \<noteq> Dispatching"
    and h: "0 < length (heap example_after_raise)"
    by (simp_all add: example_after_raise_def example_defs)
  have r: "run (execute example_cfg example_after_raise example_df (Some [''name'']))
     [Own (Acquire 0)] = Some example_next_call"
    and dd: "data_df example_next_call = Some 2"
    by (simp_all add: example_next_call_def example_after_raise_def example_defs
        select_columns_def positions_def)
  have r': "run (execute example_cfg example_after_raise example_df (Some [''name'']))
     [Own (Acquire 0), Own (Raise 0 TransferProtocolError), Own Resume] = Some example_next_raised"
    and p': "phase example_next_raised \<noteq> Dispatching"
    by (simp_all add: example_next_raised_def example_after_raise_def example_defs
        select_columns_def positions_def)
  note t = dataset_reference_cleared [OF s p r]
  note t' = dataset_reference_cleared [OF s p r']
  from t dd have a: "2 < length (heap example_next_call) \<and>
      selected_frame example_df (Some [''name'']) = Inr (heap example_next_call ! 2) \<and>
      length (heap example_after_raise) \<le> 2"
    by blast
  from t h have b: "heap example_next_call ! 0 = heap example_after_raise ! 0"
    by blast
  from t' p' have c: "data_df example_next_raised = None" by blast
  note t1 = t [THEN conjunct1]
  note t4 = t [THEN conjunct2, THEN conjunct2, THEN conjunct2, THEN conjunct1]
  from s p t1 r dd a t4 h b r' p' c show ?thesis by blast
qed

theorem execute_empty_dataset_witness:
  "rows \<lparr>columns = [''id''], rows = []\<rparr> = [] \<and> 0 < batch_size example_cfg \<and>
   get_ranges (length (rows \<lparr>columns = [''id''], rows = []\<rparr>)) (batch_size example_cfg)
     = Inr [] \<and>
   phase (execute example_cfg (BatchInsert_init []) \<lparr>columns = [''id''], rows = []\<rparr> None)
     = Completed \<and>
   tasks (execute example_cfg (BatchInsert_init []) \<lparr>columns = [''id''], rows = []\<rparr> None)
     = [] \<and>
   data_df (execute example_cfg (BatchInsert_init []) \<lparr>columns = [''id''], rows = []\<rparr> None)
     = None \<and>
   (\<forall>ev. step (execute example_cfg (BatchInsert_init []) \<lparr>columns = [''id''], rows = []\<rparr>
      None) ev = None)"
proof -
  have a: "rows \<lparr>columns = [''id''], rows = []\<rparr> = []" by simp
  have b: "0 < batch_size example_cfg" by (simp add: example_cfg_def)
  note t = execute_empty_dataset [OF a b, of "BatchInsert_init []" None]
  show ?thesis by (rule conjI [OF a conjI [OF b t]])
qed

theorem empty_column_list_is_no_selection_witness:
  "phase (execute example_cfg (BatchInsert_init []) example_df (Some [])) = Dispatching \<and>
   execute example_cfg (BatchInsert_init []) example_df (Some [])
     = execute example_cfg (BatchInsert_init []) example_df None \<and>
   data_df (execute example_cfg (BatchInsert_init []) example_df (Some []))
     = Some (length (heap (BatchInsert_init []))) \<and>
   heap (execute example_cfg (BatchInsert_init []) example_df (Some []))
     = heap (BatchInsert_init []) @ [example_df] \<and>
   col_names (tasks (execute example_cfg (BatchInsert_init []) example_df (Some [])) ! 0)
     = str_join [CHR 0x2C] (columns example_df)"
proof -
  have p: "phase (execute example_cfg (BatchInsert_init []) example_df (Some [])) = Dispatching"
    by (simp add: example_defs)
  have m: "tasks (execute example_cfg (BatchInsert_init []) example_df (Some [])) ! 0
      \<in> set (tasks (execute example_cfg (BatchInsert_init []) example_df (Some [])))"
    by (simp add: example_defs)
  note t = empty_column_list_is_no_selection [of example_cfg "BatchInsert_init []" example_df]
  note e = t [THEN conjunct1]
  note q = t [THEN conjunct2, THEN conjunct2, THEN conjunct2, THEN conjunct2, THEN mp, OF p]
  from q m have c:
    "col_names (tasks (execute example_cfg (BatchInsert_init []) example_df (Some [])) ! 0)
       = str_join [CHR 0x2C] (columns example_df)"
    by blast
  show ?thesis
    by (rule conjI [OF p conjI [OF e conjI [OF q [THEN conjunct1]
        conjI [OF q [THEN conjunct2, THEN conjunct1] c]]]])
qed

theorem execute_raises_first_failure_witness:
  "run example_call [Own (Acquire 0), Own (Acquire 1), Own (Lease 0 61)] = Some example_failed \<and>
   phase example_failed = Dispatching \<and> 0 < length (tasks example_failed) \<and>
   status (tasks example_failed ! 0) = Failed PoolTimeout \<and>
   (\<exists>first j. gather_exc example_failed = Some first \<and>
      j < length (tasks example_failed) \<and> status (tasks example_failed ! j) = Failed first \<and>
      (\<forall>ev st'. step example_failed ev = Some st' \<longrightarrow> gather_exc st' = Some first) \<and>
      step example_failed Resume
        = Some (example_failed\<lparr>data_df := None, phase := Raised first\<rparr>) \<and>
      (\<forall>oc st'. advance example_failed oc = Some st' \<longrightarrow> gather_exc st' = Some first))"
proof -
  have r: "run example_call [Own (Acquire 0), Own (Acquire 1), Own (Lease 0 61)] = Some example_failed"
    by (simp add: example_failed_def example_defs)
  have f: "phase example_failed = Dispatching" "0 < length (tasks example_failed)"
    "status (tasks example_failed ! 0) = Failed PoolTimeout"
    by (simp_all add: example_failed_def example_defs)
  note t = execute_raises_first_failure [OF r [unfolded example_call_def] f]
  show ?thesis by (rule conjI [OF r conjI [OF f(1) conjI [OF f(2) conjI [OF f(3) t]]]])
qed



end
